theory Spec2Isabelle
  imports Complex_Main "HOL-Library.Sublist" "HOL-Library.AList"
begin

section \<open>Python strings\<close>

text \<open>
  A Python \<open>str\<close> is modelled as a \<open>string\<close>, one \<open>char\<close> per code point; \<open>len\<close> is
  \<open>length\<close>, \<open>s[:k]\<close> with \<open>k \<ge> 0\<close> is \<open>take k s\<close>, \<open>a in b\<close> is \<open>sublist a b\<close>.
  \<open>str.lower\<close> is modelled on the letters A to Z; no other code point lowers to one of the
  letters of the two words the aggregation provider searches for.
\<close>

definition lower_char :: "char \<Rightarrow> char" where
  "lower_char c =
     (case map_of (zip ''ABCDEFGHIJKLMNOPQRSTUVWXYZ'' ''abcdefghijklmnopqrstuvwxyz'') c of
        None \<Rightarrow> c
      | Some d \<Rightarrow> d)"

definition lower :: "string \<Rightarrow> string" where
  "lower s = map lower_char s"

text \<open>The code points for which \<open>str.isspace\<close> holds, among the first 256.\<close>

definition is_space :: "char \<Rightarrow> bool" where
  "is_space c \<longleftrightarrow>
     c \<in> set [CHR 0x09, CHR 0x0A, CHR 0x0B, CHR 0x0C, CHR 0x0D, CHR 0x1C, CHR 0x1D, CHR 0x1E,
               CHR 0x1F, CHR 0x20, CHR 0x85, CHR 0xA0]"

definition strip :: "string \<Rightarrow> string" where
  "strip s = rev (dropWhile is_space (rev (dropWhile is_space s)))"

text \<open>\<open>s.split(sep)\<close> for a one-character separator: never empty, \<open>"".split(",") == [""]\<close>.\<close>

fun split :: "char \<Rightarrow> string \<Rightarrow> string list" where
  "split sep [] = [[]]"
| "split sep (x # xs) =
     (if x = sep then [] # split sep xs
      else (case split sep xs of
              [] \<Rightarrow> [[x]]
            | w # ws \<Rightarrow> (x # w) # ws))"

text \<open>\<open>s[:k]\<close> for any integer \<open>k\<close>: a negative \<open>k\<close> counts from the end.\<close>

definition slice_to :: "int \<Rightarrow> 'a list \<Rightarrow> 'a list" where
  "slice_to k s = (if 0 \<le> k then take (nat k) s else take (nat (int (length s) + k)) s)"

text \<open>\<open>sep.join(parts)\<close>.\<close>

fun join :: "string \<Rightarrow> string list \<Rightarrow> string" where
  "join sep [] = []"
| "join sep [x] = x"
| "join sep (x # y # ys) = x @ sep @ join sep (y # ys)"

definition digit_char :: "nat \<Rightarrow> char" where
  "digit_char d = ''0123456789'' ! (d mod 10)"

text \<open>\<open>str(n)\<close> for a natural number; the second argument bounds the number of digits.\<close>

fun digits_of :: "nat \<Rightarrow> nat \<Rightarrow> string" where
  "digits_of 0 n = []"
| "digits_of (Suc k) n =
     (if n < 10 then [digit_char n] else digits_of k (n div 10) @ [digit_char n])"

definition str_of_nat :: "nat \<Rightarrow> string" where
  "str_of_nat n = digits_of (Suc n) n"

section \<open>Shared data model (models.py)\<close>

record post =
  id_post :: string
  title :: string
  link :: string
  author :: string
  subreddit :: string
  updated :: string
  rss_summary :: string
  full_content :: "string option"

record editorial_decision =
  action :: string
  confidence :: real
  weakness :: string
  suggested_revision :: string

text \<open>
  The decoded language-model responses are dictionaries. A key that the source reads with
  \<open>.get\<close> and a default is an optional field; a key it reads by subscript is a plain field.
  The values have the JSON types the prompts prescribe.
\<close>

record thread =
  post_id :: "string option"
  post_title :: "string option"
  tweets :: "string list option"
  thread_length :: "int option"
  reasoning :: "string option"

text \<open>Truth value of a thread dictionary: a dictionary is falsy exactly when it has no key.\<close>

definition thread_truthy :: "thread \<Rightarrow> bool" where
  "thread_truthy t \<longleftrightarrow>
     post_id t \<noteq> None \<or> post_title t \<noteq> None \<or> tweets t \<noteq> None \<or>
     thread_length t \<noteq> None \<or> reasoning t \<noteq> None"

record rank_item =
  rank_id :: string
  score :: real

record raw_decision =
  raw_action :: "string option"
  raw_confidence :: "real option"
  raw_weakness :: "string option"
  raw_suggested_revision :: "string option"

text \<open>A usage record; the empty dictionary \<open>{}\<close> is \<open>None\<close> of \<open>usage_data option\<close>.\<close>

record usage_data =
  model :: string
  prompt_tokens :: int
  completion_tokens :: int
  total_tokens :: int
  cost :: "real option"

text \<open>One per-model entry of the usage ledger (keys prompt, completion, total, cost).\<close>

record model_stats =
  prompt_s :: int
  completion_s :: int
  total_s :: int
  cost_s :: real

text \<open>
  The ledger \<open>usage_stats\<close>: the per-model entries in insertion order, and the value under the
  key \<open>total_cost\<close>. Costs are Python floats; they are modelled as exact reals, every
  arithmetic operation of the source standing for the same operation on reals.
\<close>

record usage_stats =
  models :: "(string \<times> model_stats) list"
  total_cost :: real

datatype error =
    ConfigError           \<comment> \<open>ValueError raised by main: SUBREDDITS is required\<close>
  | IntError              \<comment> \<open>ValueError raised by int() on POSTS_PER_SUB\<close>
  | NoPostsError          \<comment> \<open>RuntimeError raised by run_pipeline: no posts aggregated\<close>
  | UnpackError           \<comment> \<open>ValueError raised by unpacking a bare list into two names\<close>
  | TypeError             \<comment> \<open>subscript on the float stored under total_cost\<close>
  | HTTPError nat         \<comment> \<open>raised by raise_for_status\<close>
  | ConnectionError       \<comment> \<open>raised by requests.post\<close>

section \<open>The outside world\<close>

record entry =
  entry_author :: "string option"
  entry_summary :: "string option"
  entry_link :: "string option"
  entry_title :: "string option"
  entry_updated :: "string option"

text \<open>The minimal per-post payload of the ranking request.\<close>

record payload_item =
  payload_id :: string
  payload_title :: string
  payload_rss_summary :: string
  payload_subreddit :: string

text \<open>
  Every call that leaves the process is recorded, in order, in a trace: \<open>Enrich\<close> records
  a call of the extractor on a post, \<open>Sleep\<close> a pause between two feeds, and each other
  call event one outbound request. \<open>Verdict s th ok\<close> is an observation, not a call: the
  judgment of the thread \<open>th\<close>, generated for a candidate of ranking score \<open>s\<close>, has come
  back to the loop with approval \<open>ok\<close>. Nothing in the program reads the trace.
\<close>

datatype event =
    FeedGet string
  | Sleep
  | RankCall "payload_item list"
  | Enrich post
  | GenerateCall "post list"
  | JudgeCall string
  | TelegramPost string
  | Verdict real thread bool

type_synonym trace = "event list"

datatype feed_response =
    FeedFailed                      \<comment> \<open>the request or the feed parser raised\<close>
  | FeedResponse int "entry list"   \<comment> \<open>status code and parsed entries\<close>

datatype 'a llm_response =
    LlmFailed string                \<comment> \<open>the request or the decoding raised; the text of the exception\<close>
  | LlmOk 'a int int int            \<comment> \<open>decoded content; prompt, completion and total tokens\<close>

datatype post_response =
    PostFailed                      \<comment> \<open>requests.post raised\<close>
  | PostStatus nat                  \<comment> \<open>the status code of the response\<close>

text \<open>
  The environment of a run: the answers of the external services, each a function of the
  trace so far and of the request, the library functions the source calls (\<open>py_int\<close> is
  \<open>int\<close> on a string, \<open>None\<close> where it raises), and the configuration the components read.
\<close>

record env =
  feed_get :: "trace \<Rightarrow> string \<Rightarrow> feed_response"
  rank_llm :: "trace \<Rightarrow> payload_item list \<Rightarrow> rank_item list llm_response"
  page_text :: "trace \<Rightarrow> string \<Rightarrow> string"
  gen_llm :: "trace \<Rightarrow> post list \<Rightarrow> thread list llm_response"
  judge_llm :: "trace \<Rightarrow> string \<Rightarrow> raw_decision llm_response"
  telegram_post :: "trace \<Rightarrow> string \<Rightarrow> post_response"
  md5_hexdigest :: "string \<Rightarrow> string"
  re_sub_tags :: "string \<Rightarrow> string"
  html_unescape :: "string \<Rightarrow> string"
  py_int :: "string \<Rightarrow> int option"
  bot_token :: "string option"
  chat_id :: "string option"
  filter_model :: string
  thread_model :: string

section \<open>Aggregation provider (services/reddit_provider.py)\<close>

definition is_moderator :: "string \<Rightarrow> bool" where
  "is_moderator a \<longleftrightarrow> sublist ''automoderator'' (lower a) \<or> sublist ''moderator'' (lower a)"

definition get_default :: "'a option \<Rightarrow> 'a \<Rightarrow> 'a" where
  "get_default v d = (case v of None \<Rightarrow> d | Some x \<Rightarrow> x)"

definition make_post :: "env \<Rightarrow> string \<Rightarrow> entry \<Rightarrow> post" where
  "make_post e sub en =
     (let summary_html = get_default (entry_summary en) [];
          clean_text = re_sub_tags e summary_html;
          rss_content = strip (html_unescape e clean_text);
          lnk = get_default (entry_link en) []
      in \<lparr> id_post = take 10 (md5_hexdigest e lnk),
           title = get_default (entry_title en) ''No Title'',
           link = lnk,
           author = get_default (entry_author en) ''unknown'',
           subreddit = sub,
           updated = get_default (entry_updated en) ''unknown'',
           rss_summary = rss_content,
           full_content = None \<rparr>)"

text \<open>
  The loop over \<open>feed.entries\<close>: \<open>count\<close> and \<open>posts\<close> are the loop's two variables; the
  first equation is the end of the feed, the guard \<open>limit \<le> count\<close> is the \<open>break\<close>.
\<close>

fun entries_loop :: "env \<Rightarrow> string \<Rightarrow> int \<Rightarrow> entry list \<Rightarrow> int \<Rightarrow> post list \<Rightarrow> post list" where
  "entries_loop e sub limit [] count posts = posts"
| "entries_loop e sub limit (en # ens) count posts =
     (if limit \<le> count then posts
      else if is_moderator (get_default (entry_author en) ''unknown'')
        then entries_loop e sub limit ens count posts
      else entries_loop e sub limit ens (count + 1) (posts @ [make_post e sub en]))"

definition fetch_subreddit_posts :: "env \<Rightarrow> trace \<Rightarrow> string \<Rightarrow> int \<Rightarrow> post list \<times> trace" where
  "fetch_subreddit_posts e tr sub limit =
     (case feed_get e tr sub of
        FeedFailed \<Rightarrow> ([], tr @ [FeedGet sub])
      | FeedResponse status ens \<Rightarrow>
          (if status \<noteq> 200 then ([], tr @ [FeedGet sub])
           else (entries_loop e sub limit ens 0 [], tr @ [FeedGet sub])))"

text \<open>\<open>fetch_all\<close> with its default delay of two seconds; \<open>i\<close> is the index of \<open>enumerate\<close>.\<close>

fun fetch_all_from :: "env \<Rightarrow> nat \<Rightarrow> string list \<Rightarrow> int \<Rightarrow> post list \<Rightarrow> trace \<Rightarrow> post list \<times> trace" where
  "fetch_all_from e i [] posts_per_sub all_posts tr = (all_posts, tr)"
| "fetch_all_from e i (sub # subs) posts_per_sub all_posts tr =
     (let tr1 = (if 0 < i then tr @ [Sleep] else tr)
      in case fetch_subreddit_posts e tr1 sub posts_per_sub of
           (ps, tr2) \<Rightarrow> fetch_all_from e (Suc i) subs posts_per_sub (all_posts @ ps) tr2)"

definition fetch_all :: "env \<Rightarrow> trace \<Rightarrow> string list \<Rightarrow> int \<Rightarrow> post list \<times> trace" where
  "fetch_all e tr subreddits posts_per_sub = fetch_all_from e 0 subreddits posts_per_sub [] tr"

section \<open>Ranking filter (services/ai_filter.py)\<close>

definition truncate_text :: "int \<Rightarrow> string \<Rightarrow> string" where
  "truncate_text limit s = (if limit < int (length s) then slice_to (limit - 3) s @ ''...'' else s)"

definition make_payload_item :: "int \<Rightarrow> int \<Rightarrow> post \<Rightarrow> payload_item" where
  "make_payload_item title_limit summary_limit p =
     \<lparr> payload_id = id_post p,
       payload_title = truncate_text title_limit (title p),
       payload_rss_summary = truncate_text summary_limit (rss_summary p),
       payload_subreddit = subreddit p \<rparr>"

definition build_payload :: "int \<Rightarrow> int \<Rightarrow> post list \<Rightarrow> payload_item list" where
  "build_payload title_limit summary_limit posts =
     map (make_payload_item title_limit summary_limit) posts"

text \<open>
  The two shapes \<open>filter\<close> returns: a bare list (\<open>return []\<close>) or a pair of a list and a
  usage record (\<open>return ranked_posts[:15], usage_data\<close> and \<open>return [], {}\<close>).
\<close>

datatype filter_result =
    Bare "rank_item list"
  | Pair "rank_item list" "usage_data option"

definition filter_posts :: "env \<Rightarrow> trace \<Rightarrow> post list \<Rightarrow> int \<Rightarrow> int \<Rightarrow> filter_result \<times> trace" where
  "filter_posts e tr posts title_limit summary_limit =
     (if posts = [] then (Bare [], tr)
      else
        (let payload = build_payload title_limit summary_limit posts
         in case rank_llm e tr payload of
              LlmFailed msg \<Rightarrow> (Pair [] None, tr @ [RankCall payload])
            | LlmOk ranked_posts p c t \<Rightarrow>
                (Pair (take 15 ranked_posts)
                   (Some \<lparr> model = filter_model e, prompt_tokens = p, completion_tokens = c,
                           total_tokens = t,
                           cost = Some (of_int p * 0.15 / 1000000 + of_int c * 0.60 / 1000000) \<rparr>),
                 tr @ [RankCall payload])))"

section \<open>Content extractor (services/content_extractor.py)\<close>

text \<open>
  \<open>extract\<close> returns the empty string for an empty link without fetching; every other
  outcome (the text of the page, or a placeholder naming the failure) is the answer
  \<open>page_text\<close> of the environment. It never raises.
\<close>

definition extract_text :: "env \<Rightarrow> trace \<Rightarrow> post \<Rightarrow> string" where
  "extract_text e tr p = (if link p = [] then [] else page_text e tr (link p))"

definition enrich :: "env \<Rightarrow> trace \<Rightarrow> post \<Rightarrow> post \<times> trace" where
  "enrich e tr p = (p\<lparr>full_content := Some (extract_text e tr p)\<rparr>, tr @ [Enrich p])"

section \<open>Thread generator (services/thread_generator.py)\<close>

text \<open>
  The first component is the list under the key \<open>selected_threads\<close> of the decoded result,
  empty when the key is absent.
\<close>

definition generate_threads :: "env \<Rightarrow> trace \<Rightarrow> post list \<Rightarrow> (thread list \<times> usage_data option) \<times> trace" where
  "generate_threads e tr curated_posts =
     (if curated_posts = [] then (([], None), tr)
      else
        (case gen_llm e tr curated_posts of
           LlmFailed msg \<Rightarrow> (([], None), tr @ [GenerateCall curated_posts])
         | LlmOk result p c t \<Rightarrow>
             ((result,
               Some \<lparr> model = thread_model e, prompt_tokens = p, completion_tokens = c,
                       total_tokens = t,
                       cost = Some (of_int p * 10.0 / 1000000 + of_int c * 30.0 / 1000000) \<rparr>),
              tr @ [GenerateCall curated_posts])))"

section \<open>Editorial judge (services/editorial_judge.py)\<close>

text \<open>The orchestrator constructs the judge with this model.\<close>

definition judge_model :: string where
  "judge_model = ''gpt-5.2''"

definition evaluate :: "env \<Rightarrow> trace \<Rightarrow> string \<Rightarrow> (editorial_decision \<times> usage_data option) \<times> trace" where
  "evaluate e tr thread_text =
     (case judge_llm e tr thread_text of
        LlmFailed msg \<Rightarrow>
          ((\<lparr> action = ''abort'', confidence = 0, weakness = msg, suggested_revision = [] \<rparr>, None),
           tr @ [JudgeCall thread_text])
      | LlmOk raw_result p c t \<Rightarrow>
          ((\<lparr> action = get_default (raw_action raw_result) ''abort'',
               confidence = get_default (raw_confidence raw_result) 0,
               weakness = get_default (raw_weakness raw_result) ''No weakness provided'',
               suggested_revision = get_default (raw_suggested_revision raw_result) [] \<rparr>,
            Some \<lparr> model = judge_model, prompt_tokens = p, completion_tokens = c,
                    total_tokens = t, cost = None \<rparr>),
           tr @ [JudgeCall thread_text]))"

section \<open>Notifier (services/telegram_notifier.py)\<close>

text \<open>
  The two pictographs of the message texts lie outside the 256 characters of \<open>char\<close>; each
  is one code point in the source and one placeholder character here.
\<close>

definition book_sign :: char where
  "book_sign = CHR 0x01"

definition no_entry_sign :: char where
  "no_entry_sign = CHR 0x02"

definition credentials_missing :: "env \<Rightarrow> bool" where
  "credentials_missing e \<longleftrightarrow> get_default (bot_token e) [] = [] \<or> get_default (chat_id e) [] = []"

text \<open>\<open>raise_for_status\<close> raises for the client and server error codes.\<close>

definition raise_for_status :: "nat \<Rightarrow> error option" where
  "raise_for_status status = (if 400 \<le> status \<and> status < 600 then Some (HTTPError status) else None)"

definition thread_message :: "thread \<Rightarrow> string" where
  "thread_message th =
     (let ttl = get_default (post_title th) ''Untitled Thread'';
          header = [book_sign] @ '' *THREAD FOR: '' @ ttl @ ''*'' @ [CHR 0x0A] @
                   replicate 20 CHR ''-'' @ [CHR 0x0A];
          message_chunks =
            map (\<lambda>(i, tweet). ''Tweet '' @ str_of_nat (i + 1) @ '':'' @ [CHR 0x0A] @ ''```'' @
                   [CHR 0x0A] @ tweet @ [CHR 0x0A] @ ''```'')
                (enumerate 0 (get_default (tweets th) []));
          full_message = header @ join [CHR 0x0A, CHR 0x0A] message_chunks
      in if 4000 < length full_message then take 3997 full_message @ ''...'' else full_message)"

text \<open>\<open>send_thread\<close> has no handler around the request: what the request raises, it raises.\<close>

definition send_thread :: "env \<Rightarrow> trace \<Rightarrow> thread \<Rightarrow> (error + bool) \<times> trace" where
  "send_thread e tr th =
     (if credentials_missing e then (Inr False, tr)
      else if get_default (tweets th) [] = [] then (Inr False, tr)
      else
        (let full_message = thread_message th
         in case telegram_post e tr full_message of
              PostFailed \<Rightarrow> (Inl ConnectionError, tr @ [TelegramPost full_message])
            | PostStatus status \<Rightarrow>
                (case raise_for_status status of
                   Some err \<Rightarrow> (Inl err, tr @ [TelegramPost full_message])
                 | None \<Rightarrow> (Inr True, tr @ [TelegramPost full_message]))))"

definition rejection_message :: "string \<Rightarrow> string \<Rightarrow> string" where
  "rejection_message ttl reason =
     [no_entry_sign] @ '' *ABORTED THREAD*'' @ [CHR 0x0A, CHR 0x0A] @ ''*Topic*: '' @ ttl @
     [CHR 0x0A] @ ''*Reason*: '' @ reason"

text \<open>\<open>send_rejection_notice\<close> wraps the same request in \<open>try\<close>/\<open>except Exception\<close>.\<close>

definition send_rejection_notice :: "env \<Rightarrow> trace \<Rightarrow> string \<Rightarrow> string \<Rightarrow> bool \<times> trace" where
  "send_rejection_notice e tr ttl reason =
     (if credentials_missing e then (False, tr)
      else
        (let message = rejection_message ttl reason
         in case telegram_post e tr message of
              PostFailed \<Rightarrow> (False, tr @ [TelegramPost message])
            | PostStatus status \<Rightarrow>
                (case raise_for_status status of
                   Some err \<Rightarrow> (False, tr @ [TelegramPost message])
                 | None \<Rightarrow> (True, tr @ [TelegramPost message]))))"

text \<open>The loop of \<open>notify_all\<close>: an exception of \<open>send_thread\<close> leaves the loop.\<close>

fun notify_loop :: "env \<Rightarrow> trace \<Rightarrow> thread list \<Rightarrow> (error \<times> trace) + trace" where
  "notify_loop e tr [] = Inr tr"
| "notify_loop e tr (th # ths) =
     (case send_thread e tr th of
        (Inl err, tr1) \<Rightarrow> Inl (err, tr1)
      | (Inr sent, tr1) \<Rightarrow> notify_loop e tr1 ths)"

definition notify_all :: "env \<Rightarrow> trace \<Rightarrow> thread list \<Rightarrow> (error \<times> trace) + trace" where
  "notify_all e tr threads = (if threads = [] then Inr tr else notify_loop e tr threads)"

section \<open>Orchestrator (core/curator.py)\<close>

definition zero_stats :: model_stats where
  "zero_stats = \<lparr> prompt_s = 0, completion_s = 0, total_s = 0, cost_s = 0 \<rparr>"

definition initial_usage :: usage_stats where
  "initial_usage = \<lparr> models = [(''gpt-5-mini'', zero_stats), (''gpt-5.2'', zero_stats)], total_cost = 0 \<rparr>"

text \<open>
  The cost \<open>_update_usage\<close> books for a usage record: the supplied cost when it is present
  and not zero, otherwise the fallback rate chosen by substring match, otherwise zero.
\<close>

definition booked_cost :: "usage_data \<Rightarrow> real" where
  "booked_cost ud =
     (let cost0 = get_default (cost ud) 0
      in if cost0 = 0 then
           (if sublist ''gpt-5-mini'' (model ud)
              then of_int (prompt_tokens ud) * 0.15 / 1000000 + of_int (completion_tokens ud) * 0.6 / 1000000
            else if sublist ''gpt-5.2'' (model ud)
              then of_int (prompt_tokens ud) * 10.0 / 1000000 + of_int (completion_tokens ud) * 30.0 / 1000000
            else cost0)
         else cost0)"

text \<open>
  \<open>_update_usage\<close>. The dictionary holds a float under \<open>total_cost\<close>, so a usage record
  whose model is that very key makes the first subscript raise.
\<close>

definition update_usage :: "usage_stats \<Rightarrow> usage_data \<Rightarrow> error + usage_stats" where
  "update_usage us ud =
     (if model ud = ''total_cost'' then Inl TypeError
      else
        (let st = (case map_of (models us) (model ud) of None \<Rightarrow> zero_stats | Some s \<Rightarrow> s);
             st1 = \<lparr> prompt_s = prompt_s st + prompt_tokens ud,
                     completion_s = completion_s st + completion_tokens ud,
                     total_s = total_s st + total_tokens ud,
                     cost_s = cost_s st + booked_cost ud \<rparr>
         in Inr \<lparr> models = AList.update (model ud) st1 (models us),
                  total_cost = total_cost us + booked_cost ud \<rparr>))"

text \<open>\<open>if usage: self._update_usage(usage_stats, usage)\<close>.\<close>

definition update_usage_if :: "usage_stats \<Rightarrow> usage_data option \<Rightarrow> error + usage_stats" where
  "update_usage_if us u = (case u of None \<Rightarrow> Inr us | Some ud \<Rightarrow> update_usage us ud)"

definition process_single_thread ::
  "env \<Rightarrow> trace \<Rightarrow> thread \<Rightarrow> usage_stats \<Rightarrow> (error \<times> trace) + ((thread \<times> bool) \<times> usage_stats \<times> trace)" where
  "process_single_thread e tr th us =
     (let ttl = get_default (post_title th) ''Untitled'';
          thread_text = join [CHR 0x0A, CHR 0x0A] (get_default (tweets th) [])
      in case evaluate e tr thread_text of
           ((decision, judge_usage), tr1) \<Rightarrow>
             (case update_usage_if us judge_usage of
                Inl err \<Rightarrow> Inl (err, tr1)
              | Inr us1 \<Rightarrow>
                  (if action decision = ''accept'' then Inr ((th, True), us1, tr1)
                   else
                     (case send_rejection_notice e tr1 ttl (weakness decision) of
                        (sent, tr2) \<Rightarrow> Inr ((th, False), us1, tr2)))))"

text \<open>The variables of the editorial loop, with the ledger and the trace.\<close>

record loop_state =
  approved_threads :: "thread list"
  best_thread_so_far :: "thread option"
  best_judge_score :: real
  usage_stats_of :: usage_stats
  trace_of :: trace

definition initial_state :: "usage_stats \<Rightarrow> trace \<Rightarrow> loop_state" where
  "initial_state us tr =
     \<lparr> approved_threads = [], best_thread_so_far = None, best_judge_score = - 1,
       usage_stats_of = us, trace_of = tr \<rparr>"

text \<open>
  One iteration of the loop for one ranked entry. The Boolean of the result is \<open>True\<close>
  where the source leaves the loop by \<open>break\<close>; a \<open>continue\<close> returns \<open>False\<close>.
\<close>

definition loop_body ::
  "env \<Rightarrow> post list \<Rightarrow> rank_item \<Rightarrow> loop_state \<Rightarrow> (error \<times> trace) + (loop_state \<times> bool)" where
  "loop_body e all_posts rank_item st =
     (case find (\<lambda>p. id_post p = rank_id rank_item) all_posts of
        None \<Rightarrow> Inr (st, False)
      | Some p \<Rightarrow>
          (case enrich e (trace_of st) p of
             (enriched_post, tr1) \<Rightarrow>
               (case generate_threads e tr1 [enriched_post] of
                  ((gen_output, gen_usage), tr2) \<Rightarrow>
                    (case update_usage_if (usage_stats_of st) gen_usage of
                       Inl err \<Rightarrow> Inl (err, tr2)
                     | Inr us1 \<Rightarrow>
                         (case gen_output of
                            [] \<Rightarrow> Inr (st\<lparr>usage_stats_of := us1, trace_of := tr2\<rparr>, False)
                          | current_thread # others \<Rightarrow>
                              (case process_single_thread e tr2 current_thread us1 of
                                 Inl err \<Rightarrow> Inl err
                               | Inr ((final_thread, loop_approved), us2, tr3) \<Rightarrow>
                                   (let st1 = st\<lparr>usage_stats_of := us2,
                                                 trace_of := tr3 @ [Verdict (score rank_item) final_thread loop_approved]\<rparr>
                                    in if loop_approved then
                                         (let st2 = st1\<lparr>approved_threads := approved_threads st1 @ [final_thread]\<rparr>
                                          in Inr (st2, 3 \<le> length (approved_threads st2)))
                                       else if best_judge_score st1 < score rank_item then
                                         Inr (st1\<lparr>best_judge_score := score rank_item,
                                                  best_thread_so_far := Some final_thread\<rparr>, False)
                                       else Inr (st1, False))))))))"

fun candidate_loop ::
  "env \<Rightarrow> post list \<Rightarrow> rank_item list \<Rightarrow> loop_state \<Rightarrow> (error \<times> trace) + loop_state" where
  "candidate_loop e all_posts [] st = Inr st"
| "candidate_loop e all_posts (rank_item # rest) st =
     (case loop_body e all_posts rank_item st of
        Inl err \<Rightarrow> Inl err
      | Inr (st1, stop) \<Rightarrow> (if stop then Inr st1 else candidate_loop e all_posts rest st1))"

text \<open>The fallback logic after the loop: the list that becomes the run's output.\<close>

definition final_threads :: "loop_state \<Rightarrow> thread list" where
  "final_threads st =
     (case best_thread_so_far st of
        None \<Rightarrow> approved_threads st
      | Some best \<Rightarrow>
          (if approved_threads st = [] \<and> thread_truthy best then approved_threads st @ [best]
           else approved_threads st))"

record pipeline_result =
  posts :: "post list"
  selected_threads :: "thread list"
  usage :: usage_stats

definition run_pipeline ::
  "env \<Rightarrow> string list \<Rightarrow> int \<Rightarrow> (error \<times> trace) + (pipeline_result \<times> trace)" where
  "run_pipeline e subreddits posts_per_sub =
     (case fetch_all e [] subreddits posts_per_sub of
        (all_posts, tr1) \<Rightarrow>
          (if all_posts = [] then Inl (NoPostsError, tr1)
           else
             (case filter_posts e tr1 all_posts 300 1500 of
                (Bare ranked, tr2) \<Rightarrow> Inl (UnpackError, tr2)
              | (Pair ranked_data filter_usage, tr2) \<Rightarrow>
                  (case update_usage_if initial_usage filter_usage of
                     Inl err \<Rightarrow> Inl (err, tr2)
                   | Inr us \<Rightarrow>
                       (if ranked_data = [] then
                          Inr (\<lparr> posts = [], selected_threads = [], usage = us \<rparr>, tr2)
                        else
                          (case candidate_loop e all_posts (take 10 ranked_data) (initial_state us tr2) of
                             Inl err \<Rightarrow> Inl err
                           | Inr st \<Rightarrow>
                               (let threads = final_threads st;
                                    result = \<lparr> posts = [], selected_threads = threads,
                                               usage = usage_stats_of st \<rparr>
                                in if threads \<noteq> [] then
                                     (case notify_all e (trace_of st) threads of
                                        Inl err \<Rightarrow> Inl err
                                      | Inr tr3 \<Rightarrow> Inr (result, tr3))
                                   else Inr (result, trace_of st))))))))"

section \<open>Entry point (main.py)\<close>




section \<open>Notions used in the statements\<close>

text \<open>An entry the aggregation loop accepts: its author is not a moderation account.\<close>

definition accepted_entry :: "entry \<Rightarrow> bool" where
  "accepted_entry en \<longleftrightarrow> \<not> is_moderator (get_default (entry_author en) ''unknown'')"


text \<open>The verdicts, the enriched posts and the kinds of call a trace holds.\<close>

fun verdicts :: "trace \<Rightarrow> (real \<times> thread \<times> bool) list" where
  "verdicts [] = []"
| "verdicts (Verdict s th ok # tr) = (s, th, ok) # verdicts tr"
| "verdicts (ev # tr) = verdicts tr"

fun enriched_of :: "trace \<Rightarrow> post list" where
  "enriched_of [] = []"
| "enriched_of (Enrich p # tr) = p # enriched_of tr"
| "enriched_of (ev # tr) = enriched_of tr"

fun is_generate :: "event \<Rightarrow> bool" where
  "is_generate (GenerateCall ps) = True"
| "is_generate ev = False"

fun is_judge :: "event \<Rightarrow> bool" where
  "is_judge (JudgeCall jt) = True"
| "is_judge ev = False"

fun is_telegram :: "event \<Rightarrow> bool" where
  "is_telegram (TelegramPost m) = True"
| "is_telegram ev = False"

text \<open>The events of aggregation and ranking: feed requests, pauses, the ranking request.\<close>

fun is_stage :: "event \<Rightarrow> bool" where
  "is_stage (FeedGet sub) = True"
| "is_stage Sleep = True"
| "is_stage (RankCall pl) = True"
| "is_stage ev = False"

text \<open>The approved threads of a trace, and its rejected threads with their ranking scores.\<close>

definition approved_of :: "trace \<Rightarrow> thread list" where
  "approved_of tr = map (\<lambda>v. fst (snd v)) (filter (\<lambda>v. snd (snd v)) (verdicts tr))"

definition rejected_of :: "trace \<Rightarrow> (real \<times> thread) list" where
  "rejected_of tr = map (\<lambda>v. (fst v, fst (snd v))) (filter (\<lambda>v. \<not> snd (snd v)) (verdicts tr))"

text \<open>
  What the loop does to its pair of best thread and best score at one rejection: the
  comparison \<open>score > best_judge_score\<close> and the two assignments.
\<close>

definition track_step :: "thread option \<times> real \<Rightarrow> real \<times> thread \<Rightarrow> thread option \<times> real" where
  "track_step b r = (if snd b < fst r then (Some (snd r), fst r) else b)"

text \<open>The post a ranked entry resolves to: the first aggregated post with its id.\<close>

definition resolve :: "post list \<Rightarrow> rank_item \<Rightarrow> post option" where
  "resolve ap it = find (\<lambda>p. id_post p = rank_id it) ap"

definition same_selection :: "loop_state \<Rightarrow> loop_state \<Rightarrow> bool" where
  "same_selection st' st \<longleftrightarrow>
     approved_threads st' = approved_threads st \<and>
     best_thread_so_far st' = best_thread_so_far st \<and>
     best_judge_score st' = best_judge_score st"

text \<open>
  A generator that answers every request for one post with at least one thread; a judge
  that accepts every thread.
\<close>

definition always_generates :: "env \<Rightarrow> bool" where
  "always_generates e \<longleftrightarrow>
     (\<forall>tr p. \<exists>ths pt ct tt. gen_llm e tr [p] = LlmOk ths pt ct tt \<and> ths \<noteq> [])"

definition always_accepts :: "env \<Rightarrow> bool" where
  "always_accepts e \<longleftrightarrow>
     (\<forall>tr jt. \<exists>raw p c t. judge_llm e tr jt = LlmOk raw p c t \<and> raw_action raw = Some ''accept'')"

text \<open>Neither configured model is the ledger's own key.\<close>

definition ledger_safe :: "env \<Rightarrow> bool" where
  "ledger_safe e \<longleftrightarrow> filter_model e \<noteq> ''total_cost'' \<and> thread_model e \<noteq> ''total_cost''"

text \<open>The posts a run aggregates, the ranked list it gets, and the trace it leaves.\<close>

definition aggregated :: "env \<Rightarrow> string list \<Rightarrow> int \<Rightarrow> post list" where
  "aggregated e subreddits posts_per_sub = fst (fetch_all e [] subreddits posts_per_sub)"

definition ranked_of :: "env \<Rightarrow> string list \<Rightarrow> int \<Rightarrow> rank_item list" where
  "ranked_of e subreddits posts_per_sub =
     (case fst (filter_posts e (snd (fetch_all e [] subreddits posts_per_sub))
                  (aggregated e subreddits posts_per_sub) 300 1500) of
        Bare ranked \<Rightarrow> ranked
      | Pair ranked u \<Rightarrow> ranked)"

definition run_trace :: "(error \<times> trace) + (pipeline_result \<times> trace) \<Rightarrow> trace" where
  "run_trace r = (case r of Inl (err, tr) \<Rightarrow> tr | Inr (res, tr) \<Rightarrow> tr)"

section \<open>A sample environment\<close>

text \<open>
  Concrete data on which the theorems below are instantiated: a feed of eight entries, two
  of them by moderation accounts, a ranking of five candidates, a generator that writes a
  two-tweet thread for the post it is given, a judge that accepts, and a channel that
  delivers.
\<close>

definition sample_entry :: "string \<Rightarrow> string \<Rightarrow> entry" where
  "sample_entry a l =
     \<lparr> entry_author = Some a, entry_summary = Some ''text'', entry_link = Some l,
       entry_title = Some a, entry_updated = None \<rparr>"

definition sample_feed :: "entry list" where
  "sample_feed =
     [sample_entry ''AutoModerator'' ''l0'', sample_entry ''alice'' ''l1'',
      sample_entry ''Chief_MODERATOR'' ''l9'', sample_entry ''bob'' ''l2'',
      sample_entry ''carol'' ''l3'', sample_entry ''dave'' ''l4'',
      sample_entry ''erin'' ''l5'', sample_entry ''frank'' ''l6'']"

definition sample_ranking :: "rank_item list" where
  "sample_ranking =
     [\<lparr> rank_id = ''l3'', score = 85 \<rparr>, \<lparr> rank_id = ''l1'', score = 92 \<rparr>,
      \<lparr> rank_id = ''l4'', score = 92 \<rparr>, \<lparr> rank_id = ''l2'', score = 78 \<rparr>,
      \<lparr> rank_id = ''l5'', score = 60 \<rparr>]"

definition sample_thread :: "post \<Rightarrow> thread" where
  "sample_thread p =
     \<lparr> post_id = Some (id_post p), post_title = Some (title p),
       tweets = Some [''hook'', ''1/1''], thread_length = Some 2, reasoning = None \<rparr>"

definition sample_verdict :: "string \<Rightarrow> raw_decision" where
  "sample_verdict a =
     \<lparr> raw_action = Some a, raw_confidence = Some 0.5, raw_weakness = Some ''bland hook'',
       raw_suggested_revision = None \<rparr>"

definition sample_env :: env where
  "sample_env =
     \<lparr> feed_get = (\<lambda>tr sub. FeedResponse 200 sample_feed),
       rank_llm = (\<lambda>tr payload. LlmOk sample_ranking 1000 200 1200),
       page_text = (\<lambda>tr l. ''page''),
       gen_llm = (\<lambda>tr ps. LlmOk (map sample_thread ps) 1500 700 2200),
       judge_llm = (\<lambda>tr txt. LlmOk (sample_verdict ''accept'') 800 60 860),
       telegram_post = (\<lambda>tr msg. PostStatus 200),
       md5_hexdigest = (\<lambda>l. l),
       re_sub_tags = (\<lambda>h. h),
       html_unescape = (\<lambda>h. h),
       py_int = (\<lambda>v. if v = ''3'' then Some 3 else if v = ''5'' then Some 5 else None),
       bot_token = Some ''token'',
       chat_id = Some ''42'',
       filter_model = ''gpt-5-mini'',
       thread_model = ''gpt-5.2'' \<rparr>"


definition long_post :: post where
  "long_post =
     \<lparr> id_post = ''l1'', title = replicate 350 CHR ''t'', link = ''l1'', author = ''alice'',
       subreddit = ''python'', updated = ''unknown'', rss_summary = replicate 1600 CHR ''s'',
       full_content = None \<rparr>"

definition sample_post :: "string \<Rightarrow> string \<Rightarrow> post" where
  "sample_post a l = make_post sample_env ''python'' (sample_entry a l)"



text \<open>The sample environment with a ranking model that returns no ranked posts.\<close>

definition unranked_env :: env where
  "unranked_env = sample_env\<lparr>rank_llm := (\<lambda>tr payload. LlmOk [] 1000 200 1200)\<rparr>"

text \<open>
  The sample environment with a channel that answers the first request it gets with status
  500 and every later request with status 200.
\<close>

definition flaky_env :: env where
  "flaky_env = sample_env\<lparr>telegram_post :=
     (\<lambda>tr m. if filter is_telegram tr = [] then PostStatus 500 else PostStatus 200)\<rparr>"



section \<open>Aggregation: moderator filtering and the limit\<close>

lemma entries_loop_take_filter:
  "entries_loop e sub limit ens count ps =
     ps @ map (make_post e sub) (take (nat (limit - count)) (filter accepted_entry ens))"
proof (induction ens arbitrary: count ps)
  case Nil
  show ?case by simp
next
  case (Cons en ens)
  show ?case
  proof (cases "limit \<le> count")
    case True
    then show ?thesis by simp
  next
    case False
    then have step: "nat (limit - count) = Suc (nat (limit - (count + 1)))" by simp
    show ?thesis
    proof (cases "accepted_entry en")
      case True
      with False show ?thesis
        by (simp add: Cons.IH step accepted_entry_def del: nat_diff_distrib')
    next
      case no: False
      with False show ?thesis by (simp add: Cons.IH accepted_entry_def)
    qed
  qed
qed

text \<open>
  C7. For a feed that is fetched with status 200, \<open>fetch_subreddit_posts\<close> returns the posts
  made from the entries whose author does not contain "automoderator" or "moderator" once
  lowered, in the order of the feed, and only the first \<open>limit\<close> of them: the entries that
  are skipped do not count toward the limit, and nothing is collected after the
  \<open>limit\<close>-th accepted entry.
\<close>

theorem fetch_subreddit_posts_filters_and_limits:
  assumes "feed_get e tr sub = FeedResponse 200 ens"
  shows "fst (fetch_subreddit_posts e tr sub limit) =
           map (make_post e sub) (take (nat limit) (filter accepted_entry ens)) \<and>
         (\<forall>en. accepted_entry en \<longleftrightarrow>
            \<not> (sublist ''automoderator'' (lower (get_default (entry_author en) ''unknown'')) \<or>
               sublist ''moderator'' (lower (get_default (entry_author en) ''unknown''))))"
  using assms
  by (simp add: fetch_subreddit_posts_def entries_loop_take_filter accepted_entry_def
      is_moderator_def)

theorem fetch_subreddit_posts_filters_and_limits_witness:
  "feed_get sample_env [] ''python'' = FeedResponse 200 sample_feed \<and>
   map author (fst (fetch_subreddit_posts sample_env [] ''python'' 3)) =
     [''alice'', ''bob'', ''carol'']"
proof -
  have h: "feed_get sample_env [] ''python'' = FeedResponse 200 sample_feed"
    by (simp add: sample_env_def)
  have acc: "filter accepted_entry sample_feed =
      [sample_entry ''alice'' ''l1'', sample_entry ''bob'' ''l2'', sample_entry ''carol'' ''l3'',
       sample_entry ''dave'' ''l4'', sample_entry ''erin'' ''l5'', sample_entry ''frank'' ''l6'']"
    by (simp add: sample_feed_def sample_entry_def accepted_entry_def is_moderator_def
        get_default_def lower_def lower_char_def sublist_code)
  show ?thesis
    using fetch_subreddit_posts_filters_and_limits [OF h, of 3] h
    by (simp add: acc make_post_def sample_entry_def get_default_def numeral_3_eq_3 Let_def)
qed

section \<open>Ranking filter: truncation and result shape\<close>

lemma truncate_text_300:
  "truncate_text 300 s = (if 300 < length s then take 297 s @ ''...'' else s)"
  by (simp add: truncate_text_def slice_to_def)

lemma truncate_text_1500:
  "truncate_text 1500 s = (if 1500 < length s then take 1497 s @ ''...'' else s)"
  by (simp add: truncate_text_def slice_to_def)

text \<open>
  C8. The request that \<open>filter\<close> issues with its default limits carries one payload item per
  post, in order. The item's title is the post's title when that has at most 300
  characters, and otherwise its first 297 characters followed by three dots, 300
  characters in all; the item's summary follows the same rule with 1500 and 1497.
\<close>

theorem filter_payload_truncation:
  assumes "ps \<noteq> []"
  shows "\<exists>payload. snd (filter_posts e tr ps 300 1500) = tr @ [RankCall payload] \<and>
           length payload = length ps \<and>
           (\<forall>i < length ps.
              payload_title (payload ! i) =
                (if 300 < length (title (ps ! i)) then take 297 (title (ps ! i)) @ ''...''
                 else title (ps ! i)) \<and>
              payload_rss_summary (payload ! i) =
                (if 1500 < length (rss_summary (ps ! i))
                 then take 1497 (rss_summary (ps ! i)) @ ''...''
                 else rss_summary (ps ! i)) \<and>
              (300 < length (title (ps ! i)) \<longrightarrow> length (payload_title (payload ! i)) = 300) \<and>
              (1500 < length (rss_summary (ps ! i)) \<longrightarrow>
                 length (payload_rss_summary (payload ! i)) = 1500))"
proof -
  let ?payload = "build_payload 300 1500 ps"
  have "snd (filter_posts e tr ps 300 1500) = tr @ [RankCall ?payload]"
    using assms by (simp add: filter_posts_def Let_def split: llm_response.split)
  moreover have "length ?payload = length ps"
    by (simp add: build_payload_def)
  moreover have "\<forall>i < length ps.
      payload_title (?payload ! i) = truncate_text 300 (title (ps ! i)) \<and>
      payload_rss_summary (?payload ! i) = truncate_text 1500 (rss_summary (ps ! i))"
    by (simp add: build_payload_def make_payload_item_def)
  ultimately show ?thesis
    by (intro exI [of _ ?payload]) (simp add: truncate_text_300 truncate_text_1500)
qed

theorem filter_payload_truncation_witness:
  "[long_post] \<noteq> [] \<and>
   (\<exists>payload. snd (filter_posts sample_env [] [long_post] 300 1500) = [RankCall payload] \<and>
      payload_title (payload ! 0) = replicate 297 CHR ''t'' @ ''...'' \<and>
      length (payload_title (payload ! 0)) = 300 \<and>
      payload_rss_summary (payload ! 0) = replicate 1497 CHR ''s'' @ ''...'' \<and>
      length (payload_rss_summary (payload ! 0)) = 1500)"
proof -
  have h: "[long_post] \<noteq> []" by simp
  from filter_payload_truncation [OF h, of sample_env "[]"]
  obtain payload where p: "snd (filter_posts sample_env [] [long_post] 300 1500) = [RankCall payload]"
    and q: "\<forall>i < length [long_post].
              payload_title (payload ! i) =
                (if 300 < length (title ([long_post] ! i)) then take 297 (title ([long_post] ! i)) @ ''...''
                 else title ([long_post] ! i)) \<and>
              payload_rss_summary (payload ! i) =
                (if 1500 < length (rss_summary ([long_post] ! i))
                 then take 1497 (rss_summary ([long_post] ! i)) @ ''...''
                 else rss_summary ([long_post] ! i)) \<and>
              (300 < length (title ([long_post] ! i)) \<longrightarrow> length (payload_title (payload ! i)) = 300) \<and>
              (1500 < length (rss_summary ([long_post] ! i)) \<longrightarrow>
                 length (payload_rss_summary (payload ! i)) = 1500)"
    by auto
  from q have "payload_title (payload ! 0) = replicate 297 CHR ''t'' @ ''...'' \<and>
      length (payload_title (payload ! 0)) = 300 \<and>
      payload_rss_summary (payload ! 0) = replicate 1497 CHR ''s'' @ ''...'' \<and>
      length (payload_rss_summary (payload ! 0)) = 1500"
    by (simp add: long_post_def)
  with p h show ?thesis by blast
qed

text \<open>
  C9. Called with no posts, \<open>filter\<close> issues no request (the trace is unchanged) and returns a
  bare empty list; called with at least one post, it issues exactly one ranking request and
  returns a pair of a ranked list and a usage record. The two shapes differ.
\<close>

theorem filter_posts_result_shape:
  "filter_posts e tr [] title_limit summary_limit = (Bare [], tr) \<and>
   (ps \<noteq> [] \<longrightarrow>
      (\<exists>ranked u. fst (filter_posts e tr ps title_limit summary_limit) = Pair ranked u) \<and>
      snd (filter_posts e tr ps title_limit summary_limit) =
        tr @ [RankCall (build_payload title_limit summary_limit ps)])"
  by (simp add: filter_posts_def Let_def split: llm_response.split)

theorem filter_posts_result_shape_witness:
  "filter_posts sample_env [] [] 300 1500 = (Bare [], []) \<and>
   [long_post] \<noteq> [] \<and>
   fst (filter_posts sample_env [] [long_post] 300 1500) \<noteq> Bare [] \<and>
   snd (filter_posts sample_env [] [long_post] 300 1500) =
     [RankCall (build_payload 300 1500 [long_post])]"
  using filter_posts_result_shape [of sample_env "[]" 300 1500 "[long_post]"]
  by auto

section \<open>The usage ledger\<close>




section \<open>The editorial loop, one iteration at a time\<close>

lemma verdicts_append [simp]: "verdicts (a @ b) = verdicts a @ verdicts b"
  by (induction a rule: verdicts.induct) simp_all

lemma enriched_of_append [simp]: "enriched_of (a @ b) = enriched_of a @ enriched_of b"
  by (induction a rule: enriched_of.induct) simp_all

lemma approved_of_append [simp]: "approved_of (a @ b) = approved_of a @ approved_of b"
  by (simp add: approved_of_def)

lemma rejected_of_append [simp]: "rejected_of (a @ b) = rejected_of a @ rejected_of b"
  by (simp add: rejected_of_def)

lemma update_usage_if_ok:
  "(\<forall>ud. u = Some ud \<longrightarrow> model ud \<noteq> ''total_cost'') \<Longrightarrow> \<exists>us'. update_usage_if us u = Inr us'"
  by (cases u) (simp_all add: update_usage_if_def update_usage_def Let_def)

lemma update_usage_if_error:
  "update_usage_if us u = Inl err \<Longrightarrow> \<exists>ud. u = Some ud \<and> model ud = ''total_cost''"
  by (cases u) (simp_all add: update_usage_if_def update_usage_def Let_def split: if_splits)

lemma generate_threads_result:
  "\<exists>ths u. generate_threads e tr [p] = ((ths, u), tr @ [GenerateCall [p]]) \<and>
     (\<forall>ud. u = Some ud \<longrightarrow> model ud = thread_model e) \<and>
     (always_generates e \<longrightarrow> ths \<noteq> [])"
proof (cases "gen_llm e tr [p]")
  case (LlmFailed msg)
  then have "\<not> always_generates e"
    by (metis always_generates_def llm_response.distinct(1))
  with LlmFailed show ?thesis by (simp add: generate_threads_def)
next
  case (LlmOk ths pt ct tt)
  then have "always_generates e \<longrightarrow> ths \<noteq> []"
    by (metis always_generates_def llm_response.inject)
  with LlmOk show ?thesis by (simp add: generate_threads_def)
qed

lemma evaluate_result:
  "\<exists>d u. evaluate e tr jt = ((d, u), tr @ [JudgeCall jt]) \<and>
     (\<forall>ud. u = Some ud \<longrightarrow> model ud = judge_model) \<and>
     (always_accepts e \<longrightarrow> action d = ''accept'')"
proof (cases "judge_llm e tr jt")
  case (LlmFailed msg)
  then have "\<not> always_accepts e"
    by (metis always_accepts_def llm_response.distinct(1))
  with LlmFailed show ?thesis by (simp add: evaluate_def)
next
  case (LlmOk raw pt ct tt)
  then have "always_accepts e \<longrightarrow> raw_action raw = Some ''accept''"
    by (metis always_accepts_def llm_response.inject)
  with LlmOk show ?thesis by (auto simp: evaluate_def get_default_def)
qed

lemma send_rejection_notice_result:
  "\<exists>sent notice. send_rejection_notice e tr ttl reason = (sent, tr @ notice) \<and>
     (notice = [] \<or> (\<exists>m. notice = [TelegramPost m]))"
  by (auto simp: send_rejection_notice_def Let_def split: post_response.split option.split)

lemma process_single_thread_result:
  "\<exists>ok us' jt notice.
     process_single_thread e tr th us = Inr ((th, ok), us', tr @ [JudgeCall jt] @ notice) \<and>
     (notice = [] \<or> (\<not> ok \<and> (\<exists>m. notice = [TelegramPost m]))) \<and>
     (always_accepts e \<longrightarrow> ok)"
proof -
  let ?jt = "join [CHR 0x0A, CHR 0x0A] (get_default (tweets th) [])"
  obtain d u where ev: "evaluate e tr ?jt = ((d, u), tr @ [JudgeCall ?jt])"
    and m: "\<forall>ud. u = Some ud \<longrightarrow> model ud = judge_model"
    and acc: "always_accepts e \<longrightarrow> action d = ''accept''"
    using evaluate_result by blast
  have "\<forall>ud. u = Some ud \<longrightarrow> model ud \<noteq> ''total_cost''"
    using m by (simp add: judge_model_def)
  then obtain us' where up: "update_usage_if us u = Inr us'"
    using update_usage_if_ok by blast
  obtain sent notice where sr:
    "send_rejection_notice e (tr @ [JudgeCall ?jt]) (get_default (post_title th) ''Untitled'') (weakness d)
       = (sent, (tr @ [JudgeCall ?jt]) @ notice)"
    and n: "notice = [] \<or> (\<exists>m. notice = [TelegramPost m])"
    using send_rejection_notice_result by blast
  show ?thesis
  proof (cases "action d = ''accept''")
    case True
    then have "process_single_thread e tr th us = Inr ((th, True), us', tr @ [JudgeCall ?jt] @ [])"
      by (simp add: process_single_thread_def Let_def ev up)
    then show ?thesis by blast
  next
    case False
    then have "process_single_thread e tr th us = Inr ((th, False), us', tr @ [JudgeCall ?jt] @ notice)"
      by (simp add: process_single_thread_def Let_def ev up sr)
    with n acc False show ?thesis by blast
  qed
qed

text \<open>
  One iteration, case by case: the candidate does not resolve; nothing is generated; the
  thread is approved; the thread is rejected. It raises only when a usage record of the
  generator's model cannot be merged.
\<close>

lemma loop_body_result:
  "(thread_model e = ''total_cost'' \<and> (\<exists>err tr'. loop_body e ap it st = Inl (err, tr'))) \<or>
   (\<exists>st' stop evs. loop_body e ap it st = Inr (st', stop) \<and> trace_of st' = trace_of st @ evs \<and>
    ((resolve ap it = None \<and> evs = [] \<and> same_selection st' st \<and> \<not> stop)
     \<or> (\<exists>p ep. resolve ap it = Some p \<and> evs = [Enrich p, GenerateCall [ep]] \<and>
            same_selection st' st \<and> \<not> stop \<and> \<not> always_generates e)
     \<or> (\<exists>p ep jt th. resolve ap it = Some p \<and>
            evs = [Enrich p, GenerateCall [ep], JudgeCall jt, Verdict (score it) th True] \<and>
            approved_threads st' = approved_threads st @ [th] \<and>
            best_thread_so_far st' = best_thread_so_far st \<and>
            best_judge_score st' = best_judge_score st \<and>
            stop = (3 \<le> length (approved_threads st')))
     \<or> (\<exists>p ep jt th notice. resolve ap it = Some p \<and>
            evs = [Enrich p, GenerateCall [ep], JudgeCall jt] @ notice @ [Verdict (score it) th False] \<and>
            (notice = [] \<or> (\<exists>m. notice = [TelegramPost m])) \<and>
            approved_threads st' = approved_threads st \<and>
            (best_thread_so_far st', best_judge_score st') =
              track_step (best_thread_so_far st, best_judge_score st) (score it, th) \<and>
            \<not> stop \<and> \<not> always_accepts e)))"
proof (cases "resolve ap it")
  case None
  then have "loop_body e ap it st = Inr (st, False)"
    by (simp add: loop_body_def resolve_def)
  with None show ?thesis by (auto simp: same_selection_def)
next
  case (Some p)
  then have f: "find (\<lambda>p. id_post p = rank_id it) ap = Some p" by (simp add: resolve_def)
  let ?ep = "p\<lparr>full_content := Some (extract_text e (trace_of st) p)\<rparr>"
  let ?tr1 = "trace_of st @ [Enrich p]"
  have en: "enrich e (trace_of st) p = (?ep, ?tr1)" by (simp add: enrich_def)
  obtain ths u where g: "generate_threads e ?tr1 [?ep] = ((ths, u), ?tr1 @ [GenerateCall [?ep]])"
    and gm: "\<forall>ud. u = Some ud \<longrightarrow> model ud = thread_model e"
    and gs: "always_generates e \<longrightarrow> ths \<noteq> []"
    using generate_threads_result by blast
  let ?tr2 = "?tr1 @ [GenerateCall [?ep]]"
  show ?thesis
  proof (cases "update_usage_if (usage_stats_of st) u")
    case (Inl err)
    then have "thread_model e = ''total_cost''"
      using update_usage_if_error gm by fastforce
    moreover have "loop_body e ap it st = Inl (err, ?tr2)"
      by (simp add: loop_body_def f en g Inl)
    ultimately show ?thesis by blast
  next
    case (Inr us1)
    note up = Inr
    show ?thesis
    proof (cases ths)
      case Nil
      then have "loop_body e ap it st = Inr (st\<lparr>usage_stats_of := us1, trace_of := ?tr2\<rparr>, False)"
        by (simp add: loop_body_def f en g up)
      with Some gs Nil show ?thesis by (auto simp: same_selection_def)
    next
      case (Cons th others)
      obtain ok us2 jt notice where ps:
        "process_single_thread e ?tr2 th us1 = Inr ((th, ok), us2, ?tr2 @ [JudgeCall jt] @ notice)"
        and n: "notice = [] \<or> (\<not> ok \<and> (\<exists>m. notice = [TelegramPost m]))"
        and acc: "always_accepts e \<longrightarrow> ok"
        using process_single_thread_result by blast
      note ps = ps [simplified]
      let ?tr3 = "?tr2 @ [JudgeCall jt] @ notice"
      show ?thesis
      proof (cases ok)
        case True
        with n have nn: "notice = []" by blast
        let ?st2 = "st\<lparr>usage_stats_of := us2, trace_of := ?tr3 @ [Verdict (score it) th True],
                       approved_threads := approved_threads st @ [th]\<rparr>"
        have "loop_body e ap it st = Inr (?st2, 3 \<le> length (approved_threads ?st2))"
          using True by (simp add: loop_body_def f en g up Cons ps Let_def)
        with Some nn show ?thesis by auto
      next
        case False
        show ?thesis
        proof (cases "best_judge_score st < score it")
          case better: True
          let ?st2 = "st\<lparr>usage_stats_of := us2, trace_of := ?tr3 @ [Verdict (score it) th False],
                         best_judge_score := score it, best_thread_so_far := Some th\<rparr>"
          have "loop_body e ap it st = Inr (?st2, False)"
            using False better by (simp add: loop_body_def f en g up Cons ps Let_def)
          moreover have "(best_thread_so_far ?st2, best_judge_score ?st2) =
              track_step (best_thread_so_far st, best_judge_score st) (score it, th)"
            using better by (simp add: track_step_def)
          ultimately show ?thesis using Some n False acc by auto
        next
          case worse: False
          let ?st2 = "st\<lparr>usage_stats_of := us2, trace_of := ?tr3 @ [Verdict (score it) th False]\<rparr>"
          have "loop_body e ap it st = Inr (?st2, False)"
            using False worse by (simp add: loop_body_def f en g up Cons ps Let_def)
          moreover have "(best_thread_so_far ?st2, best_judge_score ?st2) =
              track_step (best_thread_so_far st, best_judge_score st) (score it, th)"
            using worse by (simp add: track_step_def)
          ultimately show ?thesis using Some n False acc by auto
        qed
      qed
    qed
  qed
qed

lemma loop_body_summary:
  assumes q: "length (approved_threads st) < 3"
  shows "(thread_model e = ''total_cost'' \<and> (\<exists>err tr'. loop_body e ap it st = Inl (err, tr'))) \<or>
   (\<exists>st' stop evs. loop_body e ap it st = Inr (st', stop) \<and> trace_of st' = trace_of st @ evs \<and>
     enriched_of evs = List.map_filter (resolve ap) [it] \<and>
     approved_threads st' = approved_threads st @ approved_of evs \<and>
     (best_thread_so_far st', best_judge_score st') =
        foldl track_step (best_thread_so_far st, best_judge_score st) (rejected_of evs) \<and>
     stop = (length (approved_threads st') = 3) \<and> length (approved_threads st') \<le> 3 \<and>
     (stop \<longrightarrow> (\<exists>pre s th. evs = pre @ [Verdict s th True])) \<and>
     length (filter is_generate evs) = length (enriched_of evs) \<and>
     length (filter is_judge evs) = length (verdicts evs) \<and>
     length (verdicts evs) \<le> length (enriched_of evs) \<and>
     (always_generates e \<and> always_accepts e \<longrightarrow>
        length (approved_of evs) = length (enriched_of evs)))"
proof -
  from loop_body_result [of e ap it st]
  consider (err) "thread_model e = ''total_cost'' \<and> (\<exists>err tr'. loop_body e ap it st = Inl (err, tr'))"
    | (ok) st' stop evs where "loop_body e ap it st = Inr (st', stop)"
      "trace_of st' = trace_of st @ evs"
      "(resolve ap it = None \<and> evs = [] \<and> same_selection st' st \<and> \<not> stop)
     \<or> (\<exists>p ep. resolve ap it = Some p \<and> evs = [Enrich p, GenerateCall [ep]] \<and>
            same_selection st' st \<and> \<not> stop \<and> \<not> always_generates e)
     \<or> (\<exists>p ep jt th. resolve ap it = Some p \<and>
            evs = [Enrich p, GenerateCall [ep], JudgeCall jt, Verdict (score it) th True] \<and>
            approved_threads st' = approved_threads st @ [th] \<and>
            best_thread_so_far st' = best_thread_so_far st \<and>
            best_judge_score st' = best_judge_score st \<and>
            stop = (3 \<le> length (approved_threads st')))
     \<or> (\<exists>p ep jt th notice. resolve ap it = Some p \<and>
            evs = [Enrich p, GenerateCall [ep], JudgeCall jt] @ notice @ [Verdict (score it) th False] \<and>
            (notice = [] \<or> (\<exists>m. notice = [TelegramPost m])) \<and>
            approved_threads st' = approved_threads st \<and>
            (best_thread_so_far st', best_judge_score st') =
              track_step (best_thread_so_far st, best_judge_score st) (score it, th) \<and>
            \<not> stop \<and> \<not> always_accepts e)"
    by blast
  then show ?thesis
  proof cases
    case err
    then show ?thesis by blast
  next
    case ok
    have "enriched_of evs = List.map_filter (resolve ap) [it] \<and>
     approved_threads st' = approved_threads st @ approved_of evs \<and>
     (best_thread_so_far st', best_judge_score st') =
        foldl track_step (best_thread_so_far st, best_judge_score st) (rejected_of evs) \<and>
     stop = (length (approved_threads st') = 3) \<and> length (approved_threads st') \<le> 3 \<and>
     (stop \<longrightarrow> (\<exists>pre s th. evs = pre @ [Verdict s th True])) \<and>
     length (filter is_generate evs) = length (enriched_of evs) \<and>
     length (filter is_judge evs) = length (verdicts evs) \<and>
     length (verdicts evs) \<le> length (enriched_of evs) \<and>
     (always_generates e \<and> always_accepts e \<longrightarrow>
        length (approved_of evs) = length (enriched_of evs))"
      using ok(3) q
      by (elim disjE exE conjE)
        (auto simp: same_selection_def List.map_filter_simps approved_of_def rejected_of_def)
    with ok(1,2) show ?thesis by blast
  qed
qed

lemma candidate_loop_summary:
  "length (approved_threads st) < 3 \<Longrightarrow>
   (thread_model e = ''total_cost'' \<and> (\<exists>err tr'. candidate_loop e ap items st = Inl (err, tr'))) \<or>
   (\<exists>st' k evs. candidate_loop e ap items st = Inr st' \<and> trace_of st' = trace_of st @ evs \<and>
     k \<le> length items \<and>
     enriched_of evs = List.map_filter (resolve ap) (take k items) \<and>
     approved_threads st' = approved_threads st @ approved_of evs \<and>
     (best_thread_so_far st', best_judge_score st') =
        foldl track_step (best_thread_so_far st, best_judge_score st) (rejected_of evs) \<and>
     length (approved_threads st') \<le> 3 \<and>
     (length (approved_threads st') = 3 \<longrightarrow> (\<exists>pre s th. evs = pre @ [Verdict s th True])) \<and>
     (length (approved_threads st') < 3 \<longrightarrow> k = length items) \<and>
     length (filter is_generate evs) = length (enriched_of evs) \<and>
     length (filter is_judge evs) = length (verdicts evs) \<and>
     length (verdicts evs) \<le> length (enriched_of evs) \<and>
     (always_generates e \<and> always_accepts e \<longrightarrow>
        length (approved_of evs) = length (enriched_of evs)))"
proof (induction items arbitrary: st)
  case Nil
  have "candidate_loop e ap [] st = Inr st \<and> trace_of st = trace_of st @ [] \<and>
     (0::nat) \<le> length ([] :: rank_item list) \<and>
     enriched_of [] = List.map_filter (resolve ap) (take 0 []) \<and>
     approved_threads st = approved_threads st @ approved_of [] \<and>
     (best_thread_so_far st, best_judge_score st) =
        foldl track_step (best_thread_so_far st, best_judge_score st) (rejected_of []) \<and>
     length (approved_threads st) \<le> 3 \<and>
     (length (approved_threads st) = 3 \<longrightarrow> (\<exists>pre s th. [] = pre @ [Verdict s th True])) \<and>
     (length (approved_threads st) < 3 \<longrightarrow> (0::nat) = length ([] :: rank_item list)) \<and>
     length (filter is_generate []) = length (enriched_of []) \<and>
     length (filter is_judge []) = length (verdicts []) \<and>
     length (verdicts []) \<le> length (enriched_of []) \<and>
     (always_generates e \<and> always_accepts e \<longrightarrow>
        length (approved_of []) = length (enriched_of []))"
    using Nil by (simp add: List.map_filter_simps approved_of_def rejected_of_def)
  then show ?case by blast
next
  case (Cons it rest)
  from loop_body_summary [OF Cons.prems, of e ap it]
  consider (err) "thread_model e = ''total_cost''" "\<exists>err tr'. loop_body e ap it st = Inl (err, tr')"
    | (ok) st1 stop evs1 where "loop_body e ap it st = Inr (st1, stop)"
      "trace_of st1 = trace_of st @ evs1"
      "enriched_of evs1 = List.map_filter (resolve ap) [it]"
      "approved_threads st1 = approved_threads st @ approved_of evs1"
      "(best_thread_so_far st1, best_judge_score st1) =
        foldl track_step (best_thread_so_far st, best_judge_score st) (rejected_of evs1)"
      "stop = (length (approved_threads st1) = 3)"
      "length (approved_threads st1) \<le> 3"
      "stop \<longrightarrow> (\<exists>pre s th. evs1 = pre @ [Verdict s th True])"
      "length (filter is_generate evs1) = length (enriched_of evs1)"
      "length (filter is_judge evs1) = length (verdicts evs1)"
      "length (verdicts evs1) \<le> length (enriched_of evs1)"
      "always_generates e \<and> always_accepts e \<longrightarrow> length (approved_of evs1) = length (enriched_of evs1)"
    by blast
  then show ?case
  proof cases
    case err
    then obtain er tr' where "loop_body e ap it st = Inl (er, tr')" by blast
    then have "candidate_loop e ap (it # rest) st = Inl (er, tr')" by simp
    with err(1) show ?thesis by blast
  next
    case ok
    note lb = ok(1) and tr1 = ok(2) and en1 = ok(3) and ap1 = ok(4) and b1 = ok(5)
      and stop = ok(6) and le1 = ok(7) and last1 = ok(8) and g1 = ok(9) and j1 = ok(10)
      and v1 = ok(11) and sc1 = ok(12)
    show ?thesis
    proof (cases stop)
      case True
      then have cl: "candidate_loop e ap (it # rest) st = Inr st1" by (simp add: lb)
      have en: "enriched_of evs1 = List.map_filter (resolve ap) (take (Suc 0) (it # rest))"
        using en1 by simp
      have kf: "Suc 0 \<le> length (it # rest)" by simp
      have eq3: "length (approved_threads st1) = 3" using True stop by simp
      then have allf: "length (approved_threads st1) < 3 \<longrightarrow> Suc 0 = length (it # rest)" by simp
      have lastf: "length (approved_threads st1) = 3 \<longrightarrow> (\<exists>pre s th. evs1 = pre @ [Verdict s th True])"
        using last1 True by simp
      show ?thesis
        using cl tr1 kf en ap1 b1 le1 lastf allf g1 j1 v1 sc1 by blast
    next
      case False
      with stop le1 have lt: "length (approved_threads st1) < 3" by simp
      from Cons.IH [OF lt]
      consider (err2) "thread_model e = ''total_cost''" "\<exists>err tr'. candidate_loop e ap rest st1 = Inl (err, tr')"
        | (ok2) st2 k evs2 where "candidate_loop e ap rest st1 = Inr st2"
          "trace_of st2 = trace_of st1 @ evs2"
          "k \<le> length rest"
          "enriched_of evs2 = List.map_filter (resolve ap) (take k rest)"
          "approved_threads st2 = approved_threads st1 @ approved_of evs2"
          "(best_thread_so_far st2, best_judge_score st2) =
            foldl track_step (best_thread_so_far st1, best_judge_score st1) (rejected_of evs2)"
          "length (approved_threads st2) \<le> 3"
          "length (approved_threads st2) = 3 \<longrightarrow> (\<exists>pre s th. evs2 = pre @ [Verdict s th True])"
          "length (approved_threads st2) < 3 \<longrightarrow> k = length rest"
          "length (filter is_generate evs2) = length (enriched_of evs2)"
          "length (filter is_judge evs2) = length (verdicts evs2)"
          "length (verdicts evs2) \<le> length (enriched_of evs2)"
          "always_generates e \<and> always_accepts e \<longrightarrow> length (approved_of evs2) = length (enriched_of evs2)"
        by blast
      then show ?thesis
      proof cases
        case err2
        then obtain er tr' where "candidate_loop e ap rest st1 = Inl (er, tr')" by blast
        then have "candidate_loop e ap (it # rest) st = Inl (er, tr')"
          using False by (simp add: lb)
        with err2(1) show ?thesis by blast
      next
        case ok2
        note cl2 = ok2(1) and tr2 = ok2(2) and k = ok2(3) and en2 = ok2(4) and ap2 = ok2(5)
          and b2 = ok2(6) and le2 = ok2(7) and last2 = ok2(8) and all2 = ok2(9)
          and g2 = ok2(10) and j2 = ok2(11) and v2 = ok2(12) and sc2 = ok2(13)
        have cl: "candidate_loop e ap (it # rest) st = Inr st2"
          using False by (simp add: lb cl2)
        have en: "enriched_of (evs1 @ evs2) = List.map_filter (resolve ap) (take (Suc k) (it # rest))"
          using en1 en2 by (simp add: List.map_filter_simps split: option.split)
        have b: "(best_thread_so_far st2, best_judge_score st2) =
            foldl track_step (best_thread_so_far st, best_judge_score st) (rejected_of (evs1 @ evs2))"
          using b1 b2 by simp
        have last: "length (approved_threads st2) = 3 \<longrightarrow>
            (\<exists>pre s th. evs1 @ evs2 = pre @ [Verdict s th True])"
        proof
          assume "length (approved_threads st2) = 3"
          with last2 obtain pre s th where "evs2 = pre @ [Verdict s th True]" by blast
          then have "evs1 @ evs2 = (evs1 @ pre) @ [Verdict s th True]" by simp
          then show "\<exists>pre s th. evs1 @ evs2 = pre @ [Verdict s th True]" by blast
        qed
        have g: "length (filter is_generate (evs1 @ evs2)) = length (enriched_of (evs1 @ evs2))"
          using g1 g2 by simp
        have j: "length (filter is_judge (evs1 @ evs2)) = length (verdicts (evs1 @ evs2))"
          using j1 j2 by simp
        have vb: "length (verdicts (evs1 @ evs2)) \<le> length (enriched_of (evs1 @ evs2))"
          using v1 v2 by simp
        have sc: "always_generates e \<and> always_accepts e \<longrightarrow>
            length (approved_of (evs1 @ evs2)) = length (enriched_of (evs1 @ evs2))"
          using sc1 sc2 by simp
        have apf: "approved_threads st2 = approved_threads st @ approved_of (evs1 @ evs2)"
          using ap1 ap2 by simp
        have trf: "trace_of st2 = trace_of st @ (evs1 @ evs2)"
          using tr1 tr2 by simp
        have kf: "Suc k \<le> length (it # rest)"
          using k by simp
        have allf: "length (approved_threads st2) < 3 \<longrightarrow> Suc k = length (it # rest)"
          using all2 by simp
        show ?thesis
          using cl trf kf en apf b le2 last allf g j vb sc by blast
      qed
    qed
  qed
qed

section \<open>Scores, traces and notification\<close>



lemma stage_events_silent:
  "\<forall>ev\<in>set evs. is_stage ev \<Longrightarrow>
   verdicts evs = [] \<and> enriched_of evs = [] \<and> filter is_generate evs = [] \<and>
   filter is_judge evs = [] \<and> filter is_telegram evs = []"
proof (induction evs)
  case Nil
  show ?case by simp
next
  case (Cons ev evs)
  then show ?case by (cases ev) simp_all
qed

lemma telegram_events_silent:
  "\<forall>ev\<in>set evs. is_telegram ev \<Longrightarrow>
   verdicts evs = [] \<and> enriched_of evs = [] \<and> filter is_generate evs = [] \<and>
   filter is_judge evs = []"
proof (induction evs)
  case Nil
  show ?case by simp
next
  case (Cons ev evs)
  then show ?case by (cases ev) simp_all
qed

lemma fetch_subreddit_posts_trace:
  "snd (fetch_subreddit_posts e tr sub limit) = tr @ [FeedGet sub]"
  by (simp add: fetch_subreddit_posts_def split: feed_response.split)

lemma fetch_all_from_trace:
  "\<exists>evs. snd (fetch_all_from e i subs n ap tr) = tr @ evs \<and> (\<forall>ev\<in>set evs. is_stage ev)"
proof (induction subs arbitrary: i ap tr)
  case Nil
  show ?case by simp
next
  case (Cons sub subs)
  let ?tr1 = "if 0 < i then tr @ [Sleep] else tr"
  obtain ps tr2 where f: "fetch_subreddit_posts e ?tr1 sub n = (ps, tr2)"
    by (cases "fetch_subreddit_posts e ?tr1 sub n")
  then have tr2: "tr2 = ?tr1 @ [FeedGet sub]"
    using fetch_subreddit_posts_trace [of e ?tr1 sub n] by simp
  from Cons.IH [of "Suc i" "ap @ ps" tr2]
  obtain evs where r: "snd (fetch_all_from e (Suc i) subs n (ap @ ps) tr2) = tr2 @ evs"
    and s: "\<forall>ev\<in>set evs. is_stage ev" by blast
  have "snd (fetch_all_from e i (sub # subs) n ap tr) = tr @ ((if 0 < i then [Sleep] else []) @ [FeedGet sub] @ evs)"
    using f r tr2 by (simp add: Let_def)
  moreover have "\<forall>ev\<in>set ((if 0 < i then [Sleep] else []) @ [FeedGet sub] @ evs). is_stage ev"
    using s by auto
  ultimately show ?case by blast
qed

lemma fetch_all_empty: "fetch_all e tr [] n = ([], tr)"
  by (simp add: fetch_all_def)

lemma send_thread_result:
  "\<exists>r evs. send_thread e tr th = (r, tr @ evs) \<and> (\<forall>ev\<in>set evs. is_telegram ev) \<and>
     (\<forall>err. r = Inl err \<longrightarrow> err = ConnectionError \<or> (\<exists>c. err = HTTPError c))"
  by (auto simp: send_thread_def Let_def raise_for_status_def
      split: post_response.split option.split)

lemma notify_loop_result:
  "(\<exists>err evs. notify_loop e tr ths = Inl (err, tr @ evs) \<and> (\<forall>ev\<in>set evs. is_telegram ev) \<and>
       (err = ConnectionError \<or> (\<exists>c. err = HTTPError c))) \<or>
   (\<exists>evs. notify_loop e tr ths = Inr (tr @ evs) \<and> (\<forall>ev\<in>set evs. is_telegram ev))"
proof (induction ths arbitrary: tr)
  case Nil
  show ?case by simp
next
  case (Cons th ths)
  obtain r evs1 where s: "send_thread e tr th = (r, tr @ evs1)"
    and t1: "\<forall>ev\<in>set evs1. is_telegram ev"
    and er: "\<forall>err. r = Inl err \<longrightarrow> err = ConnectionError \<or> (\<exists>c. err = HTTPError c)"
    using send_thread_result by blast
  show ?case
  proof (cases r)
    case (Inl err)
    then have "notify_loop e tr (th # ths) = Inl (err, tr @ evs1)" by (simp add: s)
    with t1 er Inl show ?thesis by blast
  next
    case (Inr sent)
    then have step: "notify_loop e tr (th # ths) = notify_loop e (tr @ evs1) ths" by (simp add: s)
    from Cons.IH [of "tr @ evs1"] show ?thesis
    proof
      assume "\<exists>err evs. notify_loop e (tr @ evs1) ths = Inl (err, (tr @ evs1) @ evs) \<and>
        (\<forall>ev\<in>set evs. is_telegram ev) \<and> (err = ConnectionError \<or> (\<exists>c. err = HTTPError c))"
      then obtain err evs where "notify_loop e (tr @ evs1) ths = Inl (err, tr @ (evs1 @ evs))"
        and "\<forall>ev\<in>set evs. is_telegram ev" and "err = ConnectionError \<or> (\<exists>c. err = HTTPError c)"
        by auto
      moreover from this t1 have "\<forall>ev\<in>set (evs1 @ evs). is_telegram ev" by auto
      ultimately show ?thesis using step by metis
    next
      assume "\<exists>evs. notify_loop e (tr @ evs1) ths = Inr ((tr @ evs1) @ evs) \<and>
        (\<forall>ev\<in>set evs. is_telegram ev)"
      then obtain evs where "notify_loop e (tr @ evs1) ths = Inr (tr @ (evs1 @ evs))"
        and "\<forall>ev\<in>set evs. is_telegram ev" by auto
      moreover from this t1 have "\<forall>ev\<in>set (evs1 @ evs). is_telegram ev" by auto
      ultimately show ?thesis using step by metis
    qed
  qed
qed

lemma notify_all_result:
  "(\<exists>err evs. notify_all e tr ths = Inl (err, tr @ evs) \<and> (\<forall>ev\<in>set evs. is_telegram ev) \<and>
       (err = ConnectionError \<or> (\<exists>c. err = HTTPError c))) \<or>
   (\<exists>evs. notify_all e tr ths = Inr (tr @ evs) \<and> (\<forall>ev\<in>set evs. is_telegram ev))"
proof (cases "ths = []")
  case True
  then have "notify_all e tr ths = Inr (tr @ [])" by (simp add: notify_all_def)
  then show ?thesis by (metis empty_iff list.set(1))
next
  case False
  then have "notify_all e tr ths = notify_loop e tr ths" by (simp add: notify_all_def)
  with notify_loop_result [of e tr ths] show ?thesis by simp
qed

section \<open>The whole run\<close>

lemma filter_posts_nonempty:
  assumes "ps \<noteq> []"
  shows "\<exists>rk fu pl. filter_posts e tr ps 300 1500 = (Pair rk fu, tr @ [RankCall pl]) \<and>
           (\<forall>ud. fu = Some ud \<longrightarrow> model ud = filter_model e)"
  using assms by (simp add: filter_posts_def Let_def split: llm_response.split)

text \<open>The ways a run can go, with what each leaves in the trace.\<close>

lemma run_pipeline_cases:
  "(aggregated e subs n = [] \<and>
      (\<exists>tr. run_pipeline e subs n = Inl (NoPostsError, tr) \<and> (\<forall>ev\<in>set tr. is_stage ev))) \<or>
   (aggregated e subs n \<noteq> [] \<and> filter_model e = ''total_cost'' \<and>
      (\<exists>err tr. run_pipeline e subs n = Inl (err, tr) \<and> (\<forall>ev\<in>set tr. is_stage ev))) \<or>
   (aggregated e subs n \<noteq> [] \<and> ranked_of e subs n = [] \<and>
      (\<exists>us tr. run_pipeline e subs n = Inr (\<lparr> posts = [], selected_threads = [], usage = us \<rparr>, tr) \<and>
         (\<forall>ev\<in>set tr. is_stage ev))) \<or>
   (aggregated e subs n \<noteq> [] \<and> ranked_of e subs n \<noteq> [] \<and> thread_model e = ''total_cost'' \<and>
      (\<exists>err tr. run_pipeline e subs n = Inl (err, tr))) \<or>
   (aggregated e subs n \<noteq> [] \<and> ranked_of e subs n \<noteq> [] \<and>
      (\<exists>st tr2 evs dl k.
         (\<forall>ev\<in>set tr2. is_stage ev) \<and> (\<forall>ev\<in>set dl. is_telegram ev) \<and>
         trace_of st = tr2 @ evs \<and>
         (run_pipeline e subs n =
            Inr (\<lparr> posts = [], selected_threads = final_threads st, usage = usage_stats_of st \<rparr>,
                 trace_of st @ dl) \<or>
          (\<exists>err. run_pipeline e subs n = Inl (err, trace_of st @ dl) \<and>
             (err = ConnectionError \<or> (\<exists>c. err = HTTPError c)))) \<and>
         k \<le> length (take 10 (ranked_of e subs n)) \<and>
         enriched_of evs =
           List.map_filter (resolve (aggregated e subs n)) (take k (take 10 (ranked_of e subs n))) \<and>
         approved_threads st = approved_of evs \<and>
         (best_thread_so_far st, best_judge_score st) =
            foldl track_step (None, - 1) (rejected_of evs) \<and>
         length (approved_threads st) \<le> 3 \<and>
         (length (approved_threads st) = 3 \<longrightarrow> (\<exists>pre s th. evs = pre @ [Verdict s th True])) \<and>
         (length (approved_threads st) < 3 \<longrightarrow> k = length (take 10 (ranked_of e subs n))) \<and>
         length (filter is_generate evs) = length (enriched_of evs) \<and>
         length (filter is_judge evs) = length (verdicts evs) \<and>
         length (verdicts evs) \<le> length (enriched_of evs) \<and>
         (always_generates e \<and> always_accepts e \<longrightarrow>
            length (approved_of evs) = length (enriched_of evs))))"
proof -
  obtain ap tr1 where fa: "fetch_all e [] subs n = (ap, tr1)"
    by (cases "fetch_all e [] subs n")
  have ag: "aggregated e subs n = ap" by (simp add: aggregated_def fa)
  have s1: "\<forall>ev\<in>set tr1. is_stage ev"
    using fetch_all_from_trace [of e 0 subs n "[]" "[]"] fa by (simp add: fetch_all_def)
  show ?thesis
  proof (cases "ap = []")
    case True
    then have "run_pipeline e subs n = Inl (NoPostsError, tr1)"
      by (simp add: run_pipeline_def fa)
    with True ag s1 show ?thesis by blast
  next
    case False
    then obtain rk fu pl where fp: "filter_posts e tr1 ap 300 1500 = (Pair rk fu, tr1 @ [RankCall pl])"
      and fm: "\<forall>ud. fu = Some ud \<longrightarrow> model ud = filter_model e"
      using filter_posts_nonempty by blast
    let ?tr2 = "tr1 @ [RankCall pl]"
    have rk: "ranked_of e subs n = rk"
      by (simp add: ranked_of_def aggregated_def fa fp)
    have s2: "\<forall>ev\<in>set ?tr2. is_stage ev" using s1 by simp
    show ?thesis
    proof (cases "update_usage_if initial_usage fu")
      case (Inl err)
      then have "filter_model e = ''total_cost''"
        using update_usage_if_error fm by fastforce
      moreover have "run_pipeline e subs n = Inl (err, ?tr2)"
        using False by (simp add: run_pipeline_def fa fp Inl)
      ultimately show ?thesis using False ag s2 by blast
    next
      case (Inr us)
      show ?thesis
      proof (cases "rk = []")
        case True
        then have "run_pipeline e subs n =
            Inr (\<lparr> posts = [], selected_threads = [], usage = us \<rparr>, ?tr2)"
          using False by (simp add: run_pipeline_def fa fp Inr)
        with True False ag rk s2 show ?thesis by blast
      next
        case nonempty: False
        let ?st0 = "initial_state us ?tr2"
        have lt: "length (approved_threads ?st0) < 3" by (simp add: initial_state_def)
        from candidate_loop_summary [OF lt, of e ap "take 10 rk"]
        consider (err) "thread_model e = ''total_cost''"
            "\<exists>err tr'. candidate_loop e ap (take 10 rk) ?st0 = Inl (err, tr')"
          | (ok) st k evs where "candidate_loop e ap (take 10 rk) ?st0 = Inr st"
            "trace_of st = trace_of ?st0 @ evs"
            "k \<le> length (take 10 rk)"
            "enriched_of evs = List.map_filter (resolve ap) (take k (take 10 rk))"
            "approved_threads st = approved_threads ?st0 @ approved_of evs"
            "(best_thread_so_far st, best_judge_score st) =
               foldl track_step (best_thread_so_far ?st0, best_judge_score ?st0) (rejected_of evs)"
            "length (approved_threads st) \<le> 3"
            "length (approved_threads st) = 3 \<longrightarrow> (\<exists>pre s th. evs = pre @ [Verdict s th True])"
            "length (approved_threads st) < 3 \<longrightarrow> k = length (take 10 rk)"
            "length (filter is_generate evs) = length (enriched_of evs)"
            "length (filter is_judge evs) = length (verdicts evs)"
            "length (verdicts evs) \<le> length (enriched_of evs)"
            "always_generates e \<and> always_accepts e \<longrightarrow>
               length (approved_of evs) = length (enriched_of evs)"
          by blast
        then show ?thesis
        proof cases
          case err
          then obtain er tr' where "candidate_loop e ap (take 10 rk) ?st0 = Inl (er, tr')" by blast
          then have "run_pipeline e subs n = Inl (er, tr')"
            using False nonempty by (simp add: run_pipeline_def fa fp Inr)
          with err(1) False nonempty ag rk show ?thesis by blast
        next
          case ok
          have tr: "trace_of st = ?tr2 @ evs" using ok(2) by (simp add: initial_state_def)
          have apv: "approved_threads st = approved_of evs" using ok(5) by (simp add: initial_state_def)
          have best: "(best_thread_so_far st, best_judge_score st) =
              foldl track_step (None, - 1) (rejected_of evs)"
            using ok(6) by (simp add: initial_state_def)
          let ?res = "\<lparr> posts = [], selected_threads = final_threads st, usage = usage_stats_of st \<rparr>"
          have "\<exists>dl. (\<forall>ev\<in>set dl. is_telegram ev) \<and>
              (run_pipeline e subs n = Inr (?res, trace_of st @ dl) \<or>
               (\<exists>err. run_pipeline e subs n = Inl (err, trace_of st @ dl) \<and>
                  (err = ConnectionError \<or> (\<exists>c. err = HTTPError c))))"
          proof (cases "final_threads st = []")
            case True
            then have "run_pipeline e subs n = Inr (?res, trace_of st @ [])"
              using False nonempty by (simp add: run_pipeline_def fa fp Inr ok(1) Let_def)
            then show ?thesis by (metis empty_iff list.set(1))
          next
            case nt: False
            from notify_all_result [of e "trace_of st" "final_threads st"]
            show ?thesis
            proof
              assume "\<exists>err evs. notify_all e (trace_of st) (final_threads st) = Inl (err, trace_of st @ evs) \<and>
                  (\<forall>ev\<in>set evs. is_telegram ev) \<and> (err = ConnectionError \<or> (\<exists>c. err = HTTPError c))"
              then obtain err dl where na: "notify_all e (trace_of st) (final_threads st) = Inl (err, trace_of st @ dl)"
                and t: "\<forall>ev\<in>set dl. is_telegram ev"
                and er: "err = ConnectionError \<or> (\<exists>c. err = HTTPError c)" by blast
              have "run_pipeline e subs n = Inl (err, trace_of st @ dl)"
                using False nonempty nt by (simp add: run_pipeline_def fa fp Inr ok(1) Let_def na)
              with t er show ?thesis by blast
            next
              assume "\<exists>evs. notify_all e (trace_of st) (final_threads st) = Inr (trace_of st @ evs) \<and>
                  (\<forall>ev\<in>set evs. is_telegram ev)"
              then obtain dl where na: "notify_all e (trace_of st) (final_threads st) = Inr (trace_of st @ dl)"
                and t: "\<forall>ev\<in>set dl. is_telegram ev" by blast
              have "run_pipeline e subs n = Inr (?res, trace_of st @ dl)"
                using False nonempty nt by (simp add: run_pipeline_def fa fp Inr ok(1) Let_def na)
              with t show ?thesis by blast
            qed
          qed
          then obtain dl where t: "\<forall>ev\<in>set dl. is_telegram ev"
            and run: "run_pipeline e subs n = Inr (?res, trace_of st @ dl) \<or>
               (\<exists>err. run_pipeline e subs n = Inl (err, trace_of st @ dl) \<and>
                  (err = ConnectionError \<or> (\<exists>c. err = HTTPError c)))"
            by blast
          have "\<exists>st tr2 evs dl k.
             (\<forall>ev\<in>set tr2. is_stage ev) \<and> (\<forall>ev\<in>set dl. is_telegram ev) \<and>
             trace_of st = tr2 @ evs \<and>
             (run_pipeline e subs n =
                Inr (\<lparr> posts = [], selected_threads = final_threads st, usage = usage_stats_of st \<rparr>,
                     trace_of st @ dl) \<or>
              (\<exists>err. run_pipeline e subs n = Inl (err, trace_of st @ dl) \<and>
                 (err = ConnectionError \<or> (\<exists>c. err = HTTPError c)))) \<and>
             k \<le> length (take 10 rk) \<and>
             enriched_of evs = List.map_filter (resolve ap) (take k (take 10 rk)) \<and>
             approved_threads st = approved_of evs \<and>
             (best_thread_so_far st, best_judge_score st) =
                foldl track_step (None, - 1) (rejected_of evs) \<and>
             length (approved_threads st) \<le> 3 \<and>
             (length (approved_threads st) = 3 \<longrightarrow> (\<exists>pre s th. evs = pre @ [Verdict s th True])) \<and>
             (length (approved_threads st) < 3 \<longrightarrow> k = length (take 10 rk)) \<and>
             length (filter is_generate evs) = length (enriched_of evs) \<and>
             length (filter is_judge evs) = length (verdicts evs) \<and>
             length (verdicts evs) \<le> length (enriched_of evs) \<and>
             (always_generates e \<and> always_accepts e \<longrightarrow>
                length (approved_of evs) = length (enriched_of evs))"
            using s2 t tr run ok(3) ok(4) apv best ok(7) ok(8) ok(9) ok(10) ok(11) ok(12) ok(13)
            by blast
          with False nonempty show ?thesis unfolding ag rk by blast
        qed
      qed
    qed
  qed
qed

section \<open>Entry point: the community list\<close>









section \<open>Empty ranking and fallback selection\<close>

lemma silent_trace:
  assumes "\<forall>ev\<in>set tr2. is_stage ev" and "\<forall>ev\<in>set dl. is_telegram ev"
  shows "verdicts (tr2 @ evs @ dl) = verdicts evs"
    and "enriched_of (tr2 @ evs @ dl) = enriched_of evs"
    and "filter is_generate (tr2 @ evs @ dl) = filter is_generate evs"
    and "filter is_judge (tr2 @ evs @ dl) = filter is_judge evs"
    and "approved_of (tr2 @ evs @ dl) = approved_of evs"
    and "rejected_of (tr2 @ evs @ dl) = rejected_of evs"
  using stage_events_silent [OF assms(1)] telegram_events_silent [OF assms(2)]
  by (simp_all add: approved_of_def rejected_of_def)

text \<open>
  C6. When aggregation returns at least one post and ranking yields no ranked entry, and the
  ranking model is not named by the ledger's own key, \<open>run_pipeline\<close> returns normally with
  an empty list of selected threads and an empty post list; its trace holds only feed
  requests, pauses and the ranking request: no extraction, no generation, no judgment, no
  verdict and no message to the channel.
\<close>

theorem empty_ranking_short_circuit:
  assumes "aggregated e subs n \<noteq> []" and "ranked_of e subs n = []"
    and "filter_model e \<noteq> ''total_cost''"
  shows "\<exists>us tr. run_pipeline e subs n =
             Inr (\<lparr> posts = [], selected_threads = [], usage = us \<rparr>, tr) \<and>
           (\<forall>ev\<in>set tr. is_stage ev) \<and>
           enriched_of tr = [] \<and> filter is_generate tr = [] \<and> filter is_judge tr = [] \<and>
           filter is_telegram tr = [] \<and> verdicts tr = []"
proof -
  from run_pipeline_cases [of e subs n] assms
  obtain us tr where r: "run_pipeline e subs n =
      Inr (\<lparr> posts = [], selected_threads = [], usage = us \<rparr>, tr)"
    and s: "\<forall>ev\<in>set tr. is_stage ev"
    by blast
  from stage_events_silent [OF s] r s show ?thesis by blast
qed

lemma final_threads_approved:
  "approved_threads st \<noteq> [] \<Longrightarrow> final_threads st = approved_threads st"
  by (simp add: final_threads_def split: option.split)



section \<open>The quota of the editorial loop\<close>

lemma ranked_of_no_posts: "aggregated e subs n = [] \<Longrightarrow> ranked_of e subs n = []"
  by (simp add: ranked_of_def aggregated_def filter_posts_def)

lemma map_filter_length_all:
  "\<forall>x\<in>set xs. f x \<noteq> None \<Longrightarrow> length (List.map_filter f xs) = length xs"
  by (induction xs) (auto simp: List.map_filter_simps)

text \<open>
  C4. For every run whose two configured models are not named by the ledger's own key: the
  posts handed to the extractor are those of the first \<open>k\<close> ranked entries that resolve, in
  ranked order, for some \<open>k\<close> of at most 10; there is one generation request per enriched
  post and one verdict per judgment request; at most 3 threads are approved; and when 3 are
  approved, the trace after the third approval holds nothing but messages to the channel.
  When moreover the ranked list has 5 or more entries, all of which resolve, and every
  thread is generated and accepted, exactly 3 threads are approved, exactly the first 3
  ranked candidates are enriched, generated and judged, and a run that returns outputs the 3
  approved threads.
\<close>

theorem editorial_loop_quota:
  assumes safe: "ledger_safe e"
  shows "(\<exists>k \<le> 10. enriched_of (run_trace (run_pipeline e subs n)) =
            List.map_filter (resolve (aggregated e subs n)) (take k (ranked_of e subs n))) \<and>
         length (filter is_generate (run_trace (run_pipeline e subs n))) =
           length (enriched_of (run_trace (run_pipeline e subs n))) \<and>
         length (filter is_judge (run_trace (run_pipeline e subs n))) =
           length (verdicts (run_trace (run_pipeline e subs n))) \<and>
         length (approved_of (run_trace (run_pipeline e subs n))) \<le> 3 \<and>
         (length (approved_of (run_trace (run_pipeline e subs n))) = 3 \<longrightarrow>
            (\<exists>pre s th dl. run_trace (run_pipeline e subs n) = pre @ [Verdict s th True] @ dl \<and>
               (\<forall>ev\<in>set dl. is_telegram ev))) \<and>
         (5 \<le> length (ranked_of e subs n) \<and>
          (\<forall>it\<in>set (ranked_of e subs n). resolve (aggregated e subs n) it \<noteq> None) \<and>
          always_generates e \<and> always_accepts e \<longrightarrow>
            length (approved_of (run_trace (run_pipeline e subs n))) = 3 \<and>
            enriched_of (run_trace (run_pipeline e subs n)) =
              List.map_filter (resolve (aggregated e subs n)) (take 3 (ranked_of e subs n)) \<and>
            length (enriched_of (run_trace (run_pipeline e subs n))) = 3 \<and>
            length (filter is_generate (run_trace (run_pipeline e subs n))) = 3 \<and>
            length (filter is_judge (run_trace (run_pipeline e subs n))) = 3 \<and>
            (\<forall>res tr. run_pipeline e subs n = Inr (res, tr) \<longrightarrow>
               selected_threads res = approved_of (run_trace (run_pipeline e subs n))))"
proof -
  let ?R = "run_pipeline e subs n"
  let ?T = "run_trace ?R"
  let ?ap = "aggregated e subs n"
  let ?rk = "ranked_of e subs n"
  from safe have fm: "filter_model e \<noteq> ''total_cost''" and tm: "thread_model e \<noteq> ''total_cost''"
    by (simp_all add: ledger_safe_def)
  have quiet: ?thesis if q: "\<forall>ev\<in>set ?T. is_stage ev" and rk: "?rk = []"
  proof -
    from stage_events_silent [OF q]
    have v: "verdicts ?T = []" and en: "enriched_of ?T = []"
      and g: "filter is_generate ?T = []" and j: "filter is_judge ?T = []" by simp_all
    have a: "approved_of ?T = []" using v by (simp add: approved_of_def)
    have "enriched_of ?T = List.map_filter (resolve ?ap) (take 0 ?rk)"
      using en by (simp add: List.map_filter_simps)
    then have "\<exists>k \<le> 10. enriched_of ?T = List.map_filter (resolve ?ap) (take k ?rk)"
      by (metis zero_le)
    with v g j a rk show ?thesis by simp
  qed
  have loop: ?thesis
    if st: "\<forall>ev\<in>set tr2. is_stage ev" and tg: "\<forall>ev\<in>set dl. is_telegram ev"
      and tr: "trace_of st = tr2 @ evs"
      and run: "?R = Inr (\<lparr> posts = [], selected_threads = final_threads st,
                            usage = usage_stats_of st \<rparr>, trace_of st @ dl) \<or>
                (\<exists>err. ?R = Inl (err, trace_of st @ dl) \<and>
                   (err = ConnectionError \<or> (\<exists>c. err = HTTPError c)))"
      and kl: "k \<le> length (take 10 ?rk)"
      and enr: "enriched_of evs = List.map_filter (resolve ?ap) (take k (take 10 ?rk))"
      and apv: "approved_threads st = approved_of evs"
      and le3: "length (approved_threads st) \<le> 3"
      and last: "length (approved_threads st) = 3 \<longrightarrow> (\<exists>pre s th. evs = pre @ [Verdict s th True])"
      and all: "length (approved_threads st) < 3 \<longrightarrow> k = length (take 10 ?rk)"
      and gen: "length (filter is_generate evs) = length (enriched_of evs)"
      and jud: "length (filter is_judge evs) = length (verdicts evs)"
      and vb: "length (verdicts evs) \<le> length (enriched_of evs)"
      and sc: "always_generates e \<and> always_accepts e \<longrightarrow>
                 length (approved_of evs) = length (enriched_of evs)"
    for st tr2 evs dl k
  proof -
    have T: "?T = tr2 @ evs @ dl" using tr run by (auto simp: run_trace_def)
    note sil = silent_trace [OF st tg, of evs]
    have en: "enriched_of ?T = enriched_of evs" unfolding T by (rule sil(2))
    have g: "filter is_generate ?T = filter is_generate evs" unfolding T by (rule sil(3))
    have j: "filter is_judge ?T = filter is_judge evs" unfolding T by (rule sil(4))
    have v: "verdicts ?T = verdicts evs" unfolding T by (rule sil(1))
    have a: "approved_of ?T = approved_threads st" unfolding T using sil(5) apv by simp
    have k10: "k \<le> 10" using kl by simp
    then have tk: "take k (take 10 ?rk) = take k ?rk" by (simp add: min_def)
    have p1: "\<exists>k \<le> 10. enriched_of ?T = List.map_filter (resolve ?ap) (take k ?rk)"
      using en enr tk k10 by metis
    have p2: "length (filter is_generate ?T) = length (enriched_of ?T)"
      using g en gen by simp
    have p3: "length (filter is_judge ?T) = length (verdicts ?T)"
      using j v jud by simp
    have p4: "length (approved_of ?T) \<le> 3" using a le3 by simp
    have p5: "length (approved_of ?T) = 3 \<longrightarrow>
        (\<exists>pre s th dl. ?T = pre @ [Verdict s th True] @ dl \<and> (\<forall>ev\<in>set dl. is_telegram ev))"
    proof
      assume "length (approved_of ?T) = 3"
      with a last obtain pre s th where "evs = pre @ [Verdict s th True]" by auto
      then have "?T = (tr2 @ pre) @ [Verdict s th True] @ dl" using T by simp
      with tg show "\<exists>pre s th dl. ?T = pre @ [Verdict s th True] @ dl \<and>
          (\<forall>ev\<in>set dl. is_telegram ev)" by blast
    qed
    have p6: "5 \<le> length ?rk \<and> (\<forall>it\<in>set ?rk. resolve ?ap it \<noteq> None) \<and>
          always_generates e \<and> always_accepts e \<longrightarrow>
            length (approved_of ?T) = 3 \<and>
            enriched_of ?T = List.map_filter (resolve ?ap) (take 3 ?rk) \<and>
            length (enriched_of ?T) = 3 \<and>
            length (filter is_generate ?T) = 3 \<and>
            length (filter is_judge ?T) = 3 \<and>
            (\<forall>res tr. ?R = Inr (res, tr) \<longrightarrow> selected_threads res = approved_of ?T)"
    proof (intro impI, elim conjE)
      assume five: "5 \<le> length ?rk" and res: "\<forall>it\<in>set ?rk. resolve ?ap it \<noteq> None"
        and ag: "always_generates e" and ac: "always_accepts e"
      have "\<forall>it\<in>set (take k ?rk). resolve ?ap it \<noteq> None"
        using res by (meson in_set_takeD)
      then have "length (List.map_filter (resolve ?ap) (take k ?rk)) = length (take k ?rk)"
        by (rule map_filter_length_all)
      also have "\<dots> = k" using kl by simp
      finally have lenk: "length (enriched_of evs) = k" using enr tk by simp
      have ak: "length (approved_threads st) = k"
        using sc ag ac apv lenk by simp
      have k3: "k = 3"
      proof (rule ccontr)
        assume "k \<noteq> 3"
        with ak le3 have "length (approved_threads st) < 3" by simp
        with all have "k = length (take 10 ?rk)" by simp
        with five have "5 \<le> k" by simp
        with ak le3 show False by simp
      qed
      have "length (approved_of evs) \<le> length (verdicts evs)"
        by (simp add: approved_of_def)
      with vb lenk ak apv k3 have verd: "length (verdicts evs) = 3" by simp
      have c1: "length (approved_of ?T) = 3" using a ak k3 by simp
      have c2: "enriched_of ?T = List.map_filter (resolve ?ap) (take 3 ?rk)"
        using en enr tk k3 by simp
      have c3: "length (enriched_of ?T) = 3" using en lenk k3 by simp
      have c4: "length (filter is_generate ?T) = 3" using p2 c3 by simp
      have c5: "length (filter is_judge ?T) = 3" using p3 v verd by simp
      have c6: "\<forall>res tr. ?R = Inr (res, tr) \<longrightarrow> selected_threads res = approved_of ?T"
      proof (intro allI impI)
        fix res tr
        assume "?R = Inr (res, tr)"
        with run have "selected_threads res = final_threads st" by auto
        moreover have "approved_threads st \<noteq> []" using ak k3 by auto
        ultimately show "selected_threads res = approved_of ?T"
          using a by (simp add: final_threads_approved)
      qed
      from c1 c2 c3 c4 c5 c6
      show "length (approved_of ?T) = 3 \<and>
            enriched_of ?T = List.map_filter (resolve ?ap) (take 3 ?rk) \<and>
            length (enriched_of ?T) = 3 \<and>
            length (filter is_generate ?T) = 3 \<and>
            length (filter is_judge ?T) = 3 \<and>
            (\<forall>res tr. ?R = Inr (res, tr) \<longrightarrow> selected_threads res = approved_of ?T)"
        by blast
    qed
    from p1 p2 p3 p4 p5 p6 show ?thesis by blast
  qed
  from run_pipeline_cases [of e subs n] show ?thesis
  proof (elim disjE)
    assume "?ap = [] \<and> (\<exists>tr. ?R = Inl (NoPostsError, tr) \<and> (\<forall>ev\<in>set tr. is_stage ev))"
    then have "\<forall>ev\<in>set ?T. is_stage ev" and "?rk = []"
      by (auto simp: run_trace_def ranked_of_no_posts)
    then show ?thesis by (rule quiet)
  next
    assume "?ap \<noteq> [] \<and> filter_model e = ''total_cost'' \<and>
      (\<exists>err tr. ?R = Inl (err, tr) \<and> (\<forall>ev\<in>set tr. is_stage ev))"
    with fm show ?thesis by simp
  next
    assume "?ap \<noteq> [] \<and> ?rk = [] \<and>
      (\<exists>us tr. ?R = Inr (\<lparr> posts = [], selected_threads = [], usage = us \<rparr>, tr) \<and>
         (\<forall>ev\<in>set tr. is_stage ev))"
    then have "\<forall>ev\<in>set ?T. is_stage ev" and "?rk = []"
      by (auto simp: run_trace_def)
    then show ?thesis by (rule quiet)
  next
    assume "?ap \<noteq> [] \<and> ?rk \<noteq> [] \<and> thread_model e = ''total_cost'' \<and>
      (\<exists>err tr. ?R = Inl (err, tr))"
    with tm show ?thesis by simp
  next
    assume "?ap \<noteq> [] \<and> ?rk \<noteq> [] \<and>
      (\<exists>st tr2 evs dl k.
         (\<forall>ev\<in>set tr2. is_stage ev) \<and> (\<forall>ev\<in>set dl. is_telegram ev) \<and>
         trace_of st = tr2 @ evs \<and>
         (?R = Inr (\<lparr> posts = [], selected_threads = final_threads st, usage = usage_stats_of st \<rparr>,
                 trace_of st @ dl) \<or>
          (\<exists>err. ?R = Inl (err, trace_of st @ dl) \<and>
             (err = ConnectionError \<or> (\<exists>c. err = HTTPError c)))) \<and>
         k \<le> length (take 10 ?rk) \<and>
         enriched_of evs = List.map_filter (resolve ?ap) (take k (take 10 ?rk)) \<and>
         approved_threads st = approved_of evs \<and>
         (best_thread_so_far st, best_judge_score st) =
            foldl track_step (None, - 1) (rejected_of evs) \<and>
         length (approved_threads st) \<le> 3 \<and>
         (length (approved_threads st) = 3 \<longrightarrow> (\<exists>pre s th. evs = pre @ [Verdict s th True])) \<and>
         (length (approved_threads st) < 3 \<longrightarrow> k = length (take 10 ?rk)) \<and>
         length (filter is_generate evs) = length (enriched_of evs) \<and>
         length (filter is_judge evs) = length (verdicts evs) \<and>
         length (verdicts evs) \<le> length (enriched_of evs) \<and>
         (always_generates e \<and> always_accepts e \<longrightarrow>
            length (approved_of evs) = length (enriched_of evs)))"
    then obtain st tr2 evs dl k where
      "\<forall>ev\<in>set tr2. is_stage ev" "\<forall>ev\<in>set dl. is_telegram ev"
      "trace_of st = tr2 @ evs"
      "?R = Inr (\<lparr> posts = [], selected_threads = final_threads st, usage = usage_stats_of st \<rparr>,
                 trace_of st @ dl) \<or>
          (\<exists>err. ?R = Inl (err, trace_of st @ dl) \<and>
             (err = ConnectionError \<or> (\<exists>c. err = HTTPError c)))"
      "k \<le> length (take 10 ?rk)"
      "enriched_of evs = List.map_filter (resolve ?ap) (take k (take 10 ?rk))"
      "approved_threads st = approved_of evs"
      "length (approved_threads st) \<le> 3"
      "length (approved_threads st) = 3 \<longrightarrow> (\<exists>pre s th. evs = pre @ [Verdict s th True])"
      "length (approved_threads st) < 3 \<longrightarrow> k = length (take 10 ?rk)"
      "length (filter is_generate evs) = length (enriched_of evs)"
      "length (filter is_judge evs) = length (verdicts evs)"
      "length (verdicts evs) \<le> length (enriched_of evs)"
      "always_generates e \<and> always_accepts e \<longrightarrow>
            length (approved_of evs) = length (enriched_of evs)"
      by blast
    then show ?thesis by (rule loop)
  qed
qed

section \<open>Sample runs\<close>

theorem empty_ranking_short_circuit_witness:
  "aggregated unranked_env [''python''] 5 \<noteq> [] \<and> ranked_of unranked_env [''python''] 5 = [] \<and>
   filter_model unranked_env \<noteq> ''total_cost'' \<and>
   (\<exists>us tr. run_pipeline unranked_env [''python''] 5 =
        Inr (\<lparr> posts = [], selected_threads = [], usage = us \<rparr>, tr) \<and>
      (\<forall>ev\<in>set tr. is_stage ev) \<and>
      enriched_of tr = [] \<and> filter is_generate tr = [] \<and> filter is_judge tr = [] \<and>
      filter is_telegram tr = [] \<and> verdicts tr = [])"
proof -
  have h1: "aggregated unranked_env [''python''] 5 \<noteq> []" by code_simp
  have h2: "ranked_of unranked_env [''python''] 5 = []" by code_simp
  have h3: "filter_model unranked_env \<noteq> ''total_cost''" by code_simp
  from empty_ranking_short_circuit [OF h1 h2 h3] h1 h2 h3 show ?thesis by blast
qed



theorem editorial_loop_quota_witness:
  "ledger_safe sample_env \<and> 5 \<le> length (ranked_of sample_env [''python''] 5) \<and>
   list_all (\<lambda>it. resolve (aggregated sample_env [''python''] 5) it \<noteq> None)
     (ranked_of sample_env [''python''] 5) \<and>
   always_generates sample_env \<and> always_accepts sample_env \<and>
   length (approved_of (run_trace (run_pipeline sample_env [''python''] 5))) = 3 \<and>
   map id_post (enriched_of (run_trace (run_pipeline sample_env [''python''] 5))) =
     [''l3'', ''l1'', ''l4''] \<and>
   length (filter is_generate (run_trace (run_pipeline sample_env [''python''] 5))) = 3 \<and>
   length (filter is_judge (run_trace (run_pipeline sample_env [''python''] 5))) = 3"
proof -
  have h1: "ledger_safe sample_env" by (simp add: ledger_safe_def sample_env_def)
  have h2: "5 \<le> length (ranked_of sample_env [''python''] 5)" by code_simp
  have h3: "\<forall>it\<in>set (ranked_of sample_env [''python''] 5).
      resolve (aggregated sample_env [''python''] 5) it \<noteq> None" by code_simp
  have h4: "always_generates sample_env"
    by (simp add: always_generates_def sample_env_def)
  have h5: "always_accepts sample_env"
    by (simp add: always_accepts_def sample_env_def sample_verdict_def)
  from editorial_loop_quota [OF h1, of "[''python'']" 5] h2 h3 h4 h5
  have c: "length (approved_of (run_trace (run_pipeline sample_env [''python''] 5))) = 3 \<and>
      enriched_of (run_trace (run_pipeline sample_env [''python''] 5)) =
        List.map_filter (resolve (aggregated sample_env [''python''] 5))
          (take 3 (ranked_of sample_env [''python''] 5)) \<and>
      length (filter is_generate (run_trace (run_pipeline sample_env [''python''] 5))) = 3 \<and>
      length (filter is_judge (run_trace (run_pipeline sample_env [''python''] 5))) = 3"
    by blast
  have ids: "map id_post (List.map_filter (resolve (aggregated sample_env [''python''] 5))
          (take 3 (ranked_of sample_env [''python''] 5))) = [''l3'', ''l1'', ''l4'']"
    by code_simp
  from c ids have "map id_post (enriched_of (run_trace (run_pipeline sample_env [''python''] 5))) =
     [''l3'', ''l1'', ''l4'']" by simp
  moreover from h3 have "list_all (\<lambda>it. resolve (aggregated sample_env [''python''] 5) it \<noteq> None)
     (ranked_of sample_env [''python''] 5)"
    unfolding list_all_iff by blast
  ultimately show ?thesis using h1 h2 h4 h5 c by blast
qed

text \<open>
  C1 on the code. The channel answers the first request with status 500. \<open>notify_all\<close> on
  two threads raises the HTTP error at the first and never attempts the second;
  \<open>send_rejection_notice\<close>, given the same failing request, returns \<open>False\<close>. The run in which
  three threads are approved raises the HTTP error out of \<open>run_pipeline\<close> after a single
  request to the channel.
\<close>

theorem send_thread_failure_propagates:
  "notify_all flaky_env []
     [sample_thread (sample_post ''carol'' ''l3''), sample_thread (sample_post ''alice'' ''l1'')] =
     Inl (HTTPError 500, [TelegramPost (thread_message (sample_thread (sample_post ''carol'' ''l3'')))]) \<and>
   fst (send_rejection_notice flaky_env [] ''carol'' ''bland hook'') = False \<and>
   isl (run_pipeline flaky_env [''python''] 5) \<and>
   fst (projl (run_pipeline flaky_env [''python''] 5)) = HTTPError 500 \<and>
   length (approved_of (run_trace (run_pipeline flaky_env [''python''] 5))) = 3 \<and>
   length (filter is_telegram (run_trace (run_pipeline flaky_env [''python''] 5))) = 1"
  by code_simp

end
